theory Spec2Isabelle
  imports Main "HOL-Library.Word" "HOL-Library.Sublist"
begin

section \<open>JavaScript strings\<close>

text \<open>
  A JavaScript string is a sequence of UTF-16 code units. The functions of
  \<^verbatim>\<open>src/components/SRTTranslator.tsx\<close> only look at single code units (white space,
  decimal digits, the line feed), so a string is a list of 16-bit words. \<open>str\<close> writes an
  ASCII literal of the source as such a list.
\<close>

type_synonym codeunit = "16 word"
type_synonym jsstring = "codeunit list"

definition str :: "string \<Rightarrow> jsstring" where
  "str s = map of_char s"

definition LF :: codeunit where
  "LF = 0x0A"

text \<open>
  The white space of \<^verbatim>\<open>String.prototype.trim\<close> and of the regular expression class
  \<^verbatim>\<open>\s\<close>: the WhiteSpace and LineTerminator code points of ECMAScript (TAB, LF, VT, FF, CR,
  SP, NBSP, U+1680, U+2000..U+200A, U+2028, U+2029, U+202F, U+205F, U+3000, U+FEFF).
\<close>

definition isWhiteSpace :: "codeunit \<Rightarrow> bool" where
  "isWhiteSpace c \<longleftrightarrow>
     c = 0x09 \<or> c = 0x0A \<or> c = 0x0B \<or> c = 0x0C \<or> c = 0x0D \<or> c = 0x20 \<or> c = 0xA0 \<or>
     c = 0x1680 \<or> (0x2000 \<le> c \<and> c \<le> 0x200A) \<or> c = 0x2028 \<or> c = 0x2029 \<or>
     c = 0x202F \<or> c = 0x205F \<or> c = 0x3000 \<or> c = 0xFEFF"

text \<open>The class \<^verbatim>\<open>\d\<close> of a regular expression without the unicode flag: 0 to 9.\<close>

definition isDigit :: "codeunit \<Rightarrow> bool" where
  "isDigit c \<longleftrightarrow> 0x30 \<le> c \<and> c \<le> 0x39"

definition trimStart :: "jsstring \<Rightarrow> jsstring" where
  "trimStart s = dropWhile isWhiteSpace s"

definition trimEnd :: "jsstring \<Rightarrow> jsstring" where
  "trimEnd s = rev (dropWhile isWhiteSpace (rev s))"

definition trim :: "jsstring \<Rightarrow> jsstring" where
  "trim s = trimEnd (trimStart s)"

text \<open>
  \<^verbatim>\<open>block.split('\n')\<close>: the pieces between the occurrences of a one-unit separator; the
  empty string gives one empty piece.
\<close>

fun split :: "codeunit \<Rightarrow> jsstring \<Rightarrow> jsstring list" where
  "split sep [] = [[]]"
| "split sep (c # cs) =
     (if c = sep then [] # split sep cs
      else (case split sep cs of
              [] \<Rightarrow> [[c]]
            | piece # pieces \<Rightarrow> (c # piece) # pieces))"

text \<open>\<^verbatim>\<open>Array.prototype.join\<close> on an array of strings.\<close>

fun join :: "jsstring \<Rightarrow> jsstring list \<Rightarrow> jsstring" where
  "join sep [] = []"
| "join sep [x] = x"
| "join sep (x # y # ys) = x @ sep @ join sep (y # ys)"

text \<open>
  An indexed read \<^verbatim>\<open>xs[i]\<close>: \<^verbatim>\<open>undefined\<close> (here \<open>None\<close>) out of range. Calling a method
  on \<^verbatim>\<open>undefined\<close> throws a TypeError.
\<close>

datatype error = TypeError | Rejected jsstring

definition at :: "'a list \<Rightarrow> nat \<Rightarrow> 'a option" where
  "at xs i = (if i < length xs then Some (xs ! i) else None)"

section \<open>The two regular expressions of parseSRT\<close>

text \<open>
  The block separator \<^verbatim>\<open>/\n\s*\n/\<close>. \<open>blankRun\<close> is the part \<^verbatim>\<open>\s*\n\<close> matched at the start
  of its argument: the greedy star first takes one more white space unit and matches the
  rest, and only when that fails it stops and asks for the line feed here. The result is
  the input left after the match.
\<close>

fun blankRun :: "jsstring \<Rightarrow> jsstring option" where
  "blankRun [] = None"
| "blankRun (c # cs) =
     (if isWhiteSpace c then
        (case blankRun cs of
           Some rest \<Rightarrow> Some rest
         | None \<Rightarrow> if c = LF then Some cs else None)
      else None)"

fun matchSeparator :: "jsstring \<Rightarrow> jsstring option" where
  "matchSeparator [] = None"
| "matchSeparator (c # cs) = (if c = LF then blankRun cs else None)"

text \<open>
  \<^verbatim>\<open>content.split(/\n\s*\n/)\<close>: the scan of \<^verbatim>\<open>String.prototype.split\<close> tries the separator
  at every position from the end of the last match on; a match closes the current piece
  and the scan goes on after it. The separator matches at least two units, so the case
  of an empty match does not arise.
\<close>

function splitBlocks :: "jsstring \<Rightarrow> jsstring list" where
  "splitBlocks [] = [[]]"
| "splitBlocks (c # cs) =
     (case matchSeparator (c # cs) of
        Some rest \<Rightarrow> [] # splitBlocks rest
      | None \<Rightarrow>
          (case splitBlocks cs of
             [] \<Rightarrow> [[c]]
           | piece # pieces \<Rightarrow> (c # piece) # pieces))"
  by pat_completeness auto
termination
proof (relation "measure length")
  have run: "blankRun s = Some r \<Longrightarrow> length r < length s" for s r
    by (induction s arbitrary: r) (auto split: if_splits option.splits)
  fix c :: codeunit and cs rest
  assume "matchSeparator (c # cs) = Some rest"
  then have "length rest < length cs"
    by (auto split: if_splits dest: run)
  then show "(rest, c # cs) \<in> measure length"
    by simp
qed auto

text \<open>
  The timecode line is matched with
  \<^verbatim>\<open>/(\d{2}:\d{2}:\d{2},\d{3}) --> (\d{2}:\d{2}:\d{2},\d{3})/\<close>. Every atom of this
  expression matches exactly one code unit, so the expression is a list of atoms.
\<close>

datatype atom = Digit | Lit codeunit

fun matchAtom :: "atom \<Rightarrow> codeunit \<Rightarrow> bool" where
  "matchAtom Digit c = isDigit c"
| "matchAtom (Lit k) c = (c = k)"

fun matchSeq :: "atom list \<Rightarrow> jsstring \<Rightarrow> bool" where
  "matchSeq [] s = True"
| "matchSeq (a # as) [] = False"
| "matchSeq (a # as) (c # cs) = (matchAtom a c \<and> matchSeq as cs)"

definition timecodeAtoms :: "atom list" where
  "timecodeAtoms =
     [Digit, Digit, Lit 0x3A, Digit, Digit, Lit 0x3A, Digit, Digit, Lit 0x2C,
      Digit, Digit, Digit]"

definition arrow :: jsstring where
  "arrow = str '' --> ''"

definition timePattern :: "atom list" where
  "timePattern = timecodeAtoms @ map Lit arrow @ timecodeAtoms"

text \<open>
  The match anchored at the start of \<open>s\<close>, with its two capture groups: the first 12
  units of the match and the 12 units after the 5 units of the arrow.
\<close>

definition execAt :: "jsstring \<Rightarrow> (jsstring \<times> jsstring) option" where
  "execAt s =
     (if matchSeq timePattern s then Some (take 12 s, take 12 (drop 17 s)) else None)"

text \<open>
  \<^verbatim>\<open>lines[1].match(...)\<close> without the global flag: the leftmost position where the
  expression matches, or \<^verbatim>\<open>null\<close>.
\<close>

fun timeMatch :: "jsstring \<Rightarrow> (jsstring \<times> jsstring) option" where
  "timeMatch [] = execAt []"
| "timeMatch (c # cs) =
     (case execAt (c # cs) of
        Some groups \<Rightarrow> Some groups
      | None \<Rightarrow> timeMatch cs)"

section \<open>parseInt\<close>

text \<open>
  \<^verbatim>\<open>parseInt(string)\<close> with no radix, step by step as ECMAScript gives it: leading white
  space is dropped, a sign is read, a prefix \<^verbatim>\<open>0x\<close> or \<^verbatim>\<open>0X\<close> switches to radix 16, and
  the digits of the radix are read as far as they go. No digit gives \<^verbatim>\<open>NaN\<close>. The
  result \<open>Num i\<close> stands for the Number of the mathematical integer \<open>i\<close>; the rounding of
  an integer beyond 2^53 to a double is not part of the model (no function of the
  source reads the index of an entry).
\<close>

datatype jsnumber = NaN | NegZero | Num int

definition digitValue :: "codeunit \<Rightarrow> nat option" where
  "digitValue c =
     (if 0x30 \<le> c \<and> c \<le> 0x39 then Some (unat c - 0x30)
      else if 0x61 \<le> c \<and> c \<le> 0x7A then Some (unat c - 0x61 + 10)
      else if 0x41 \<le> c \<and> c \<le> 0x5A then Some (unat c - 0x41 + 10)
      else None)"

definition isRadixDigit :: "nat \<Rightarrow> codeunit \<Rightarrow> bool" where
  "isRadixDigit R c = (case digitValue c of Some v \<Rightarrow> v < R | None \<Rightarrow> False)"

definition mathInt :: "nat \<Rightarrow> jsstring \<Rightarrow> nat" where
  "mathInt R Z =
     foldl (\<lambda>acc c. case digitValue c of Some v \<Rightarrow> acc * R + v | None \<Rightarrow> acc) 0 Z"

definition parseInt :: "jsstring \<Rightarrow> jsnumber" where
  "parseInt string =
     (let S = trimStart string;
          negative = (case S of [] \<Rightarrow> False | c # _ \<Rightarrow> c = 0x2D);
          S1 = (case S of [] \<Rightarrow> S | c # cs \<Rightarrow> if c = 0x2B \<or> c = 0x2D then cs else S);
          hex = (2 \<le> length S1 \<and> (take 2 S1 = str ''0x'' \<or> take 2 S1 = str ''0X''));
          R = (if hex then 16 else 10);
          S2 = (if hex then drop 2 S1 else S1);
          Z = takeWhile (isRadixDigit R) S2
      in if Z = [] then NaN
         else if mathInt R Z = 0 then (if negative then NegZero else Num 0)
         else Num ((if negative then - 1 else 1) * int (mathInt R Z)))"

section \<open>parseSRT\<close>

record SRTEntry =
  index :: jsnumber
  startTime :: jsstring
  endTime :: jsstring
  text' :: jsstring

text \<open>
  The body of the callback of \<^verbatim>\<open>blocks.forEach\<close>: \<open>Inr (Some entry)\<close> when the block
  pushes an entry, \<open>Inr None\<close> when it pushes nothing, \<open>Inl\<close> when it throws.
\<close>

definition parseBlock :: "jsstring \<Rightarrow> error + SRTEntry option" where
  "parseBlock block =
     (let lines = split LF block in
      if 3 \<le> length lines then
        (case at lines 0 of
           None \<Rightarrow> Inl TypeError
         | Some line0 \<Rightarrow>
             (case at lines 1 of
                None \<Rightarrow> Inl TypeError
              | Some line1 \<Rightarrow>
                  (case timeMatch line1 of
                     None \<Rightarrow> Inr None
                   | Some (start, finish) \<Rightarrow>
                       Inr (Some \<lparr>index = parseInt (trim line0),
                                  startTime = start,
                                  endTime = finish,
                                  text' = trim (join [LF] (drop 2 lines))\<rparr>))))
      else Inr None)"

text \<open>The loop \<^verbatim>\<open>blocks.forEach\<close> with the array \<^verbatim>\<open>entries\<close> it pushes to.\<close>

fun forEachBlock :: "jsstring list \<Rightarrow> SRTEntry list \<Rightarrow> error + SRTEntry list" where
  "forEachBlock [] entries = Inr entries"
| "forEachBlock (block # blocks) entries =
     (case parseBlock block of
        Inl e \<Rightarrow> Inl e
      | Inr None \<Rightarrow> forEachBlock blocks entries
      | Inr (Some entry) \<Rightarrow> forEachBlock blocks (entries @ [entry]))"

definition parseSRT :: "jsstring \<Rightarrow> error + SRTEntry list" where
  "parseSRT content = forEachBlock (splitBlocks (trim content)) []"

section \<open>generateSRT\<close>

text \<open>The decimal numeral of a natural number, as a template literal prints it.\<close>

fun showNat :: "nat \<Rightarrow> jsstring" where
  "showNat n =
     (if n < 10 then [of_nat (0x30 + n)]
      else showNat (n div 10) @ [of_nat (0x30 + n mod 10)])"

text \<open>\<^verbatim>\<open>Array.prototype.map\<close> with the position as second argument, counted from \<open>i\<close>.\<close>

fun mapIndexed :: "('a \<Rightarrow> nat \<Rightarrow> 'b) \<Rightarrow> nat \<Rightarrow> 'a list \<Rightarrow> 'b list" where
  "mapIndexed f i [] = []"
| "mapIndexed f i (x # xs) = f x i # mapIndexed f (Suc i) xs"

definition renderEntry :: "SRTEntry \<Rightarrow> nat \<Rightarrow> jsstring" where
  "renderEntry entry i =
     showNat (i + 1) @ [LF] @ startTime entry @ arrow @ endTime entry @ [LF] @
     text' entry @ [LF]"

definition generateSRT :: "SRTEntry list \<Rightarrow> jsstring" where
  "generateSRT entries = join [LF] (mapIndexed renderEntry 0 entries)"

section \<open>translateText\<close>

text \<open>
  The placeholder translation. The source waits for a timer of 100 ms and then fulfils
  its promise; a promise is modelled by the time it settles at and its outcome
  (\<open>Inr\<close> a value, \<open>Inl\<close> a rejection). The literal of the Hebrew branch is written by
  its code units (U+05EA U+05E8 U+05D2 U+05D5 U+05DD, a colon and a space).
\<close>

definition hebrewPrefix :: jsstring where
  "hebrewPrefix = [0x5EA, 0x5E8, 0x5D2, 0x5D5, 0x5DD, 0x3A, 0x20]"

definition translateDelay :: nat where
  "translateDelay = 100"

definition translateText :: "jsstring \<Rightarrow> jsstring \<Rightarrow> error + jsstring" where
  "translateText txt targetLanguage =
     (if targetLanguage = str ''hebrew'' then Inr (hebrewPrefix @ txt)
      else Inr (str ''Translation: '' @ txt))"

section \<open>handleTranslate\<close>

text \<open>
  A promise is modelled by the time at which it settles and its outcome. The promises of
  one batch settle in the order of their times, and in the order of their creation when
  the times are equal, as timers do.
\<close>

type_synonym 'a promise = "nat \<times> (error + 'a)"

definition settleEvents :: "'a promise list \<Rightarrow> (nat \<times> (error + 'a)) list" where
  "settleEvents ps =
     map (\<lambda>(i, p). (i, snd p)) (sort_key (\<lambda>(i, p). fst p) (zip [0..<length ps] ps))"

text \<open>
  \<^verbatim>\<open>Promise.all\<close>, as ECMAScript gives it: an array of values and a count of the promises
  still to fulfil. A fulfilment stores its value at the position of its promise and
  lowers the count; when the count reaches zero the array is the result. The first
  rejection is the result at once. \<open>None\<close> is a promise that never settles. The positions
  are those of the promises of the batch, so every store is within the array.
\<close>

fun promiseAllRun ::
  "(nat \<times> (error + 'a)) list \<Rightarrow> 'a option list \<Rightarrow> nat \<Rightarrow> (error + 'a option list) option"
where
  "promiseAllRun [] values remaining = None"
| "promiseAllRun ((i, outcome) # events) values remaining =
     (case outcome of
        Inl e \<Rightarrow> Some (Inl e)
      | Inr v \<Rightarrow>
          if remaining = 1 then Some (Inr (values[i := Some v]))
          else promiseAllRun events (values[i := Some v]) (remaining - 1))"

definition promiseAll :: "'a promise list \<Rightarrow> (error + 'a list) option" where
  "promiseAll ps =
     (if ps = [] then Some (Inr [])
      else
        (case promiseAllRun (settleEvents ps) (replicate (length ps) None) (length ps) of
           None \<Rightarrow> None
         | Some (Inl e) \<Rightarrow> Some (Inl e)
         | Some (Inr values) \<Rightarrow>
             (case those values of None \<Rightarrow> None | Some vs \<Rightarrow> Some (Inr vs))))"

text \<open>
  The component state that \<^verbatim>\<open>handleTranslate\<close> reads and writes, with the toasts shown and
  the errors logged so far. \<^verbatim>\<open>file.text()\<close> is a promise of the content of the file.
\<close>

record jsfile =
  fileName :: jsstring
  fileText :: "error + jsstring"

datatype toast = ToastError jsstring | ToastSuccess jsstring

record ui_state =
  selectedLanguage :: jsstring
  file' :: "jsfile option"
  translatedSRT :: jsstring
  isTranslating :: bool
  originalEntries :: "SRTEntry list"
  toasts :: "toast list"
  consoleErrors :: "error list"

text \<open>The three messages of \<^verbatim>\<open>handleTranslate\<close>, by their code units.\<close>

definition msgSelectFileAndLanguage :: jsstring where
  "msgSelectFileAndLanguage =
     [0x5D0, 0x5E0, 0x5D0, 0x20, 0x5D1, 0x5D7, 0x5E8, 0x20, 0x5E7, 0x5D5, 0x5D1, 0x5E5, 0x20,
      0x5D5, 0x5E9, 0x5E4, 0x5EA, 0x20, 0x5EA, 0x5E8, 0x5D2, 0x5D5, 0x5DD]"

definition msgTranslationDone :: jsstring where
  "msgTranslationDone =
     [0x5D4, 0x5EA, 0x5E8, 0x5D2, 0x5D5, 0x5DD, 0x20, 0x5D4, 0x5D5, 0x5E9, 0x5DC, 0x5DD, 0x20,
      0x5D1, 0x5D4, 0x5E6, 0x5DC, 0x5D7, 0x5D4, 0x21]"

definition msgTranslationError :: jsstring where
  "msgTranslationError =
     [0x5E9, 0x5D2, 0x5D9, 0x5D0, 0x5D4, 0x20, 0x5D1, 0x5EA, 0x5E8, 0x5D2, 0x5D5, 0x5DD, 0x20,
      0x5D4, 0x5E7, 0x5D5, 0x5D1, 0x5E5]"

text \<open>
  \<^verbatim>\<open>entries.map(async (entry) => ({...entry, text: await translateText(...)}))\<close>: one promise
  per entry, created in the order of the entries. The translator is a parameter, with the
  time each of its calls takes: the source calls \<open>translateText\<close>, which never rejects and
  always takes \<open>translateDelay\<close>.
\<close>

definition translateEntries ::
  "(jsstring \<Rightarrow> jsstring \<Rightarrow> error + jsstring) \<Rightarrow> (nat \<Rightarrow> nat) \<Rightarrow> jsstring \<Rightarrow> SRTEntry list \<Rightarrow>
     SRTEntry promise list" where
  "translateEntries tr delay language entries =
     mapIndexed
       (\<lambda>entry i.
          (delay i,
           case tr (text' entry) language of
             Inl e \<Rightarrow> Inl e
           | Inr t \<Rightarrow> Inr (entry\<lparr>text' := t\<rparr>)))
       0 entries"

text \<open>The \<^verbatim>\<open>catch\<close> block: an error toast and a line on the console.\<close>

definition catchError :: "ui_state \<Rightarrow> error \<Rightarrow> ui_state" where
  "catchError st e =
     st\<lparr>toasts := toasts st @ [ToastError msgTranslationError],
        consoleErrors := consoleErrors st @ [e]\<rparr>"

text \<open>
  \<^verbatim>\<open>handleTranslate\<close>, from the state it is called in to the state it leaves; \<open>None\<close> when it
  never returns. The \<^verbatim>\<open>finally\<close> block resets \<open>isTranslating\<close> on both ways out.
\<close>

definition handleTranslateWith ::
  "(jsstring \<Rightarrow> jsstring \<Rightarrow> error + jsstring) \<Rightarrow> (nat \<Rightarrow> nat) \<Rightarrow> ui_state \<Rightarrow> ui_state option"
where
  "handleTranslateWith tr delay st =
     (case file' st of
        None \<Rightarrow> Some (st\<lparr>toasts := toasts st @ [ToastError msgSelectFileAndLanguage]\<rparr>)
      | Some f \<Rightarrow>
          if selectedLanguage st = [] then
            Some (st\<lparr>toasts := toasts st @ [ToastError msgSelectFileAndLanguage]\<rparr>)
          else
            (let st1 = st\<lparr>isTranslating := True\<rparr> in
             case fileText f of
               Inl e \<Rightarrow> Some ((catchError st1 e)\<lparr>isTranslating := False\<rparr>)
             | Inr content \<Rightarrow>
                 (case parseSRT content of
                    Inl e \<Rightarrow> Some ((catchError st1 e)\<lparr>isTranslating := False\<rparr>)
                  | Inr entries \<Rightarrow>
                      (let st2 = st1\<lparr>originalEntries := entries\<rparr> in
                       case promiseAll
                              (translateEntries tr delay (selectedLanguage st) entries) of
                         None \<Rightarrow> None
                       | Some (Inl e) \<Rightarrow> Some ((catchError st2 e)\<lparr>isTranslating := False\<rparr>)
                       | Some (Inr translatedEntries) \<Rightarrow>
                           Some (st2\<lparr>translatedSRT := generateSRT translatedEntries,
                                     toasts := toasts st2 @ [ToastSuccess msgTranslationDone],
                                     isTranslating := False\<rparr>)))))"

definition handleTranslate :: "ui_state \<Rightarrow> ui_state option" where
  "handleTranslate st = handleTranslateWith translateText (\<lambda>i. translateDelay) st"

section \<open>Reading the model\<close>

text \<open>
  The entry a block pushes, if any. \<open>parseBlock\<close> is shown below never to throw, so this
  is all it does.
\<close>

definition entryOf :: "jsstring \<Rightarrow> SRTEntry option" where
  "entryOf block = (case parseBlock block of Inl e \<Rightarrow> None | Inr r \<Rightarrow> r)"

text \<open>
  A timecode in the words of the specification: twelve code units \<^verbatim>\<open>HH:MM:SS,mmm\<close>, the
  letters standing for decimal digits.
\<close>

definition isTimecode :: "jsstring \<Rightarrow> bool" where
  "isTimecode s = list_all2 matchAtom timecodeAtoms s"

text \<open>
  A line that begins with a decimal integer: an optional sign and then a decimal digit.
\<close>

definition beginsWithDecimal :: "jsstring \<Rightarrow> bool" where
  "beginsWithDecimal s =
     (case s of
        [] \<Rightarrow> False
      | c # cs \<Rightarrow>
          if c = 0x2B \<or> c = 0x2D then (case cs of [] \<Rightarrow> False | d # _ \<Rightarrow> isDigit d)
          else isDigit c)"

text \<open>What the events of a batch leave in the array of values when none is a rejection.\<close>

fun store :: "nat \<times> (error + 'a) \<Rightarrow> 'a option list \<Rightarrow> 'a option list" where
  "store (i, Inr v) vs = vs[i := Some v]"
| "store (i, Inl e) vs = vs"

section \<open>Lists, positions and joins\<close>

declare showNat.simps [simp del]

lemma length_mapIndexed: "length (mapIndexed f i xs) = length xs"
  by (induction xs arbitrary: i) simp_all

lemma nth_mapIndexed: "k < length xs \<Longrightarrow> mapIndexed f i xs ! k = f (xs ! k) (i + k)"
proof (induction xs arbitrary: i k)
  case Nil
  then show ?case by simp
next
  case (Cons x xs)
  then show ?case by (cases k) simp_all
qed

lemma mapIndexed_positions:
  "mapIndexed f i xs = map (\<lambda>k. f (xs ! k) (i + k)) [0..<length xs]"
  by (rule nth_equalityI) (simp_all add: length_mapIndexed nth_mapIndexed)

lemma mapIndexed_append:
  "mapIndexed f i (xs @ ys) = mapIndexed f i xs @ mapIndexed f (i + length xs) ys"
  by (induction xs arbitrary: i) simp_all

lemma join_snoc: "xs \<noteq> [] \<Longrightarrow> join sep (xs @ [x]) = join sep xs @ sep @ x"
  by (induction sep xs rule: join.induct) simp_all

lemma showNat_digits: "showNat n \<noteq> [] \<and> (\<forall>c \<in> set (showNat n). isDigit c)"
proof (induction n rule: showNat.induct)
  case (1 n)
  have d: "isDigit (0x30 + of_nat k)" if "k < 10" for k :: nat
  proof -
    have "k \<in> {0,1,2,3,4,5,6,7,8,9}" using that by auto
    then show ?thesis by (auto simp: isDigit_def)
  qed
  show ?case
  proof (cases "n < 10")
    case True
    then show ?thesis by (subst showNat.simps, subst (2) showNat.simps) (simp add: d)
  next
    case False
    with 1 show ?thesis by (subst showNat.simps, subst (2) showNat.simps) (simp add: d)
  qed
qed

lemma generateSRT_snoc:
  "generateSRT (F @ [x]) =
     (if F = [] then renderEntry x 0 else generateSRT F @ [LF] @ renderEntry x (length F))"
proof (cases "F = []")
  case True
  then show ?thesis by (simp add: generateSRT_def)
next
  case False
  then have "mapIndexed renderEntry 0 F \<noteq> []"
    by (cases F) simp_all
  then show ?thesis using False
    by (simp add: generateSRT_def mapIndexed_append join_snoc)
qed

section \<open>Lines, blocks and the parser\<close>

lemma split_nonempty: "split sep s \<noteq> []"
  by (induction s) (auto split: list.splits)

lemma join_split: "join [sep] (split sep s) = s"
proof (induction s)
  case Nil
  then show ?case by simp
next
  case (Cons c cs)
  show ?case
  proof (cases "c = sep")
    case True
    then show ?thesis using Cons split_nonempty [of sep cs]
      by (cases "split sep cs") simp_all
  next
    case False
    obtain p ps where ps: "split sep cs = p # ps"
      using split_nonempty [of sep cs] by (cases "split sep cs") auto
    then show ?thesis using False Cons by (cases ps) simp_all
  qed
qed

lemma split_no_sep: "l \<in> set (split sep s) \<Longrightarrow> sep \<notin> set l"
  by (induction s arbitrary: l) (auto split: if_splits list.splits)

lemma parseBlock_cases:
  "parseBlock b =
     (if 3 \<le> length (split LF b) then
        (case timeMatch (split LF b ! 1) of
           None \<Rightarrow> Inr None
         | Some (s, e) \<Rightarrow>
             Inr (Some \<lparr>index = parseInt (trim (split LF b ! 0)), startTime = s, endTime = e,
                        text' = trim (join [LF] (drop 2 (split LF b)))\<rparr>))
      else Inr None)"
  by (simp add: parseBlock_def at_def Let_def)

lemma parseBlock_Inr: "parseBlock b = Inr (entryOf b)"
  by (simp add: entryOf_def parseBlock_cases split: option.splits)

lemma forEachBlock_entries:
  "forEachBlock blocks entries = Inr (entries @ List.map_filter entryOf blocks)"
  by (induction blocks arbitrary: entries)
     (simp_all add: parseBlock_Inr List.map_filter_simps split: option.splits)

lemma parseSRT_entries:
  "parseSRT X = Inr (List.map_filter entryOf (splitBlocks (trim X)))"
  by (simp add: parseSRT_def forEachBlock_entries)

lemma map_filter_append:
  "List.map_filter f (xs @ ys) = List.map_filter f xs @ List.map_filter f ys"
  by (simp add: List.map_filter_def)

section \<open>The timecode expression\<close>

lemma matchSeq_iff:
  "matchSeq p s \<longleftrightarrow> (\<exists>m rest. s = m @ rest \<and> list_all2 matchAtom p m)"
proof (induction p s rule: matchSeq.induct)
  case (1 s)
  then show ?case by simp
next
  case (2 a as)
  then show ?case by (simp add: list_all2_Cons1)
next
  case (3 a as c cs)
  show ?case
  proof
    assume "matchSeq (a # as) (c # cs)"
    then obtain m rest where "matchAtom a c" "cs = m @ rest" "list_all2 matchAtom as m"
      using 3 by auto
    then have "c # cs = (c # m) @ rest \<and> list_all2 matchAtom (a # as) (c # m)" by simp
    then show "\<exists>m rest. c # cs = m @ rest \<and> list_all2 matchAtom (a # as) m" by blast
  next
    assume "\<exists>m rest. c # cs = m @ rest \<and> list_all2 matchAtom (a # as) m"
    then obtain m rest where m: "c # cs = m @ rest" "list_all2 matchAtom (a # as) m" by blast
    then obtain m' where "m = c # m'" "matchAtom a c" "list_all2 matchAtom as m'" "cs = m' @ rest"
      by (cases m) auto
    then show "matchSeq (a # as) (c # cs)" using 3 by auto
  qed
qed

lemma list_all2_Lit: "list_all2 matchAtom (map Lit k) m \<longleftrightarrow> m = k"
  by (induction k arbitrary: m) (auto simp: list_all2_Cons1)

lemma isTimecode_length: "isTimecode s \<Longrightarrow> length s = 12"
  by (auto simp: isTimecode_def timecodeAtoms_def dest: list_all2_lengthD)

lemma length_arrow: "length arrow = 5"
  by (simp add: arrow_def str_def)

lemma execAt_Some_iff:
  "execAt s = Some (a, b) \<longleftrightarrow>
     (\<exists>post. s = a @ arrow @ b @ post \<and> isTimecode a \<and> isTimecode b)"
proof
  assume "execAt s = Some (a, b)"
  then have ms: "matchSeq timePattern s" and ab: "a = take 12 s" "b = take 12 (drop 17 s)"
    by (auto simp: execAt_def split: if_splits)
  from ms obtain m rest where m: "s = m @ rest" "list_all2 matchAtom timePattern m"
    by (auto simp: matchSeq_iff)
  then obtain x y z where xyz: "m = x @ y @ z" "isTimecode x" "y = arrow" "isTimecode z"
    by (auto simp: timePattern_def list_all2_append1 list_all2_Lit isTimecode_def)
  then have "a = x" "b = z"
    using ab m isTimecode_length [of x] isTimecode_length [of z] length_arrow by auto
  then show "\<exists>post. s = a @ arrow @ b @ post \<and> isTimecode a \<and> isTimecode b"
    using m xyz by auto
next
  assume "\<exists>post. s = a @ arrow @ b @ post \<and> isTimecode a \<and> isTimecode b"
  then obtain post where s: "s = a @ arrow @ b @ post" and tc: "isTimecode a" "isTimecode b"
    by blast
  have "list_all2 matchAtom timePattern (a @ arrow @ b)"
    unfolding timePattern_def using tc
    by (intro list_all2_appendI) (simp_all add: isTimecode_def list_all2_Lit)
  then have "matchSeq timePattern s"
    unfolding matchSeq_iff using s by (metis append.assoc)
  then show "execAt s = Some (a, b)"
    using s isTimecode_length [OF tc(1)] isTimecode_length [OF tc(2)] length_arrow
    by (simp add: execAt_def)
qed

lemma execAt_None_iff:
  "execAt s = None \<longleftrightarrow> \<not> (\<exists>a b post. s = a @ arrow @ b @ post \<and> isTimecode a \<and> isTimecode b)"
proof -
  have "execAt s \<noteq> None \<longleftrightarrow> (\<exists>a b. execAt s = Some (a, b))" by auto
  then show ?thesis using execAt_Some_iff by blast
qed

lemma timeMatch_Some:
  "timeMatch s = Some (a, b) \<Longrightarrow>
     \<exists>pre post. s = pre @ a @ arrow @ b @ post \<and> isTimecode a \<and> isTimecode b \<and>
       execAt (drop (length pre) s) = Some (a, b) \<and>
       (\<forall>k < length pre. execAt (drop k s) = None)"
proof (induction s)
  case Nil
  then have "execAt [] = Some (a, b)" by simp
  then have "[] = [] @ a @ arrow @ b @ [] \<and> isTimecode a \<and> isTimecode b" 
    by (auto simp: execAt_Some_iff)
  then show ?case using Nil by (metis drop_Nil list.size(3) not_less_zero timeMatch.simps(1))
next
  case (Cons c cs)
  show ?case
  proof (cases "execAt (c # cs)")
    case None
    then have "timeMatch cs = Some (a, b)" using Cons.prems by simp
    then obtain pre post where p: "cs = pre @ a @ arrow @ b @ post" "isTimecode a" "isTimecode b"
      "execAt (drop (length pre) cs) = Some (a, b)"
      "\<forall>k < length pre. execAt (drop k cs) = None"
      using Cons.IH by blast
    have "\<forall>k < length (c # pre). execAt (drop k (c # cs)) = None"
    proof (intro allI impI)
      fix k assume "k < length (c # pre)"
      then show "execAt (drop k (c # cs)) = None"
        using None p(5) by (cases k) simp_all
    qed
    moreover have "c # cs = (c # pre) @ a @ arrow @ b @ post" using p(1) by simp
    moreover have "execAt (drop (length (c # pre)) (c # cs)) = Some (a, b)" using p(4) by simp
    ultimately show ?thesis using p(2,3) by blast
  next
    case (Some g)
    then have g: "execAt (c # cs) = Some (a, b)" using Cons.prems by simp
    then obtain post where "c # cs = [] @ a @ arrow @ b @ post" "isTimecode a" "isTimecode b"
      by (auto simp: execAt_Some_iff)
    moreover have "execAt (drop (length ([]::jsstring)) (c # cs)) = Some (a, b)" using g by simp
    moreover have "\<forall>k < length ([]::jsstring). execAt (drop k (c # cs)) = None" by simp
    ultimately show ?thesis by blast
  qed
qed

lemma timeMatch_None_iff:
  "timeMatch s = None \<longleftrightarrow> (\<forall>k \<le> length s. execAt (drop k s) = None)"
proof (induction s)
  case Nil
  then show ?case by simp
next
  case (Cons c cs)
  have "(\<forall>k \<le> length (c # cs). execAt (drop k (c # cs)) = None) \<longleftrightarrow>
        execAt (c # cs) = None \<and> (\<forall>k \<le> length cs. execAt (drop k cs) = None)"
  proof
    assume a: "\<forall>k \<le> length (c # cs). execAt (drop k (c # cs)) = None"
    have "execAt (drop 0 (c # cs)) = None" using a by blast
    moreover have "execAt (drop k cs) = None" if "k \<le> length cs" for k
      using a [rule_format, of "Suc k"] that by simp
    ultimately show "execAt (c # cs) = None \<and> (\<forall>k \<le> length cs. execAt (drop k cs) = None)"
      by simp
  next
    assume a: "execAt (c # cs) = None \<and> (\<forall>k \<le> length cs. execAt (drop k cs) = None)"
    show "\<forall>k \<le> length (c # cs). execAt (drop k (c # cs)) = None"
    proof (intro allI impI)
      fix k assume "k \<le> length (c # cs)"
      then show "execAt (drop k (c # cs)) = None" using a by (cases k) simp_all
    qed
  qed
  then show ?case using Cons by (simp split: option.splits)
qed

lemma timeMatch_None_contains:
  "timeMatch s = None \<longleftrightarrow>
     \<not> (\<exists>pre a b post. s = pre @ a @ arrow @ b @ post \<and> isTimecode a \<and> isTimecode b)"
proof
  assume n: "timeMatch s = None"
  show "\<not> (\<exists>pre a b post. s = pre @ a @ arrow @ b @ post \<and> isTimecode a \<and> isTimecode b)"
  proof
    assume "\<exists>pre a b post. s = pre @ a @ arrow @ b @ post \<and> isTimecode a \<and> isTimecode b"
    then obtain pre a b post where s: "s = pre @ a @ arrow @ b @ post" "isTimecode a" "isTimecode b"
      by blast
    then have "execAt (drop (length pre) s) = Some (a, b)"
      by (auto simp: execAt_Some_iff)
    moreover have "length pre \<le> length s" using s by simp
    ultimately show False using n timeMatch_None_iff by (metis option.distinct(1))
  qed
next
  assume c: "\<not> (\<exists>pre a b post. s = pre @ a @ arrow @ b @ post \<and> isTimecode a \<and> isTimecode b)"
  show "timeMatch s = None"
  proof (rule ccontr)
    assume "timeMatch s \<noteq> None"
    then obtain a b where "timeMatch s = Some (a, b)" by auto
    then show False using timeMatch_Some c by blast
  qed
qed

section \<open>Trimming and parseInt\<close>

lemma rev_dropWhile_takeWhile:
  "xs = rev (dropWhile P (rev xs)) @ rev (takeWhile P (rev xs))"
  unfolding rev_append [symmetric] by simp

lemma trim_decomp:
  "\<exists>l r. s = l @ trim s @ r \<and> (\<forall>c \<in> set l. isWhiteSpace c) \<and> (\<forall>c \<in> set r. isWhiteSpace c)"
proof -
  let ?t = "dropWhile isWhiteSpace s"
  have 1: "s = takeWhile isWhiteSpace s @ ?t" by simp
  have 2: "?t = trim s @ rev (takeWhile isWhiteSpace (rev ?t))"
    unfolding trim_def trimEnd_def trimStart_def by (rule rev_dropWhile_takeWhile)
  have "s = takeWhile isWhiteSpace s @ trim s @ rev (takeWhile isWhiteSpace (rev ?t))"
    using 1 2 by metis
  moreover have "\<forall>c \<in> set (takeWhile isWhiteSpace s). isWhiteSpace c"
    by (auto dest: set_takeWhileD)
  moreover have "\<forall>c \<in> set (rev (takeWhile isWhiteSpace (rev ?t))). isWhiteSpace c"
    by (auto dest: set_takeWhileD)
  ultimately show ?thesis by blast
qed

lemma trim_ends:
  assumes "trim s \<noteq> []"
  shows "\<not> isWhiteSpace (hd (trim s))" and "\<not> isWhiteSpace (last (trim s))"
proof -
  let ?t = "dropWhile isWhiteSpace s"
  let ?u = "dropWhile isWhiteSpace (rev ?t)"
  have u: "?u \<noteq> []" and tr: "trim s = rev ?u"
    using assms by (simp_all add: trim_def trimEnd_def trimStart_def)
  have "\<not> isWhiteSpace (hd ?u)" using u by (rule hd_dropWhile)
  then show "\<not> isWhiteSpace (last (trim s))" using u tr by (simp add: last_rev)
  have "?t = trim s @ rev (takeWhile isWhiteSpace (rev ?t))"
    unfolding trim_def trimEnd_def trimStart_def by (rule rev_dropWhile_takeWhile)
  then obtain r where t: "?t = trim s @ r" by blast
  then have ne: "?t \<noteq> []" using assms by (metis append_is_Nil_conv)
  have "hd ?t = hd (trim s)" using t assms by (metis hd_append2)
  moreover have "\<not> isWhiteSpace (hd ?t)" using ne by (rule hd_dropWhile)
  ultimately show "\<not> isWhiteSpace (hd (trim s))" by simp
qed

lemma split_two_lines:
  assumes "2 \<le> length (split LF b)"
  shows "b = split LF b ! 0 @ [LF] @ split LF b ! 1 @
             (if length (split LF b) = 2 then [] else [LF] @ join [LF] (drop 2 (split LF b)))"
proof -
  obtain l0 l1 ls where ls: "split LF b = l0 # l1 # ls"
    using assms by (cases "split LF b"; cases "tl (split LF b)") auto
  have "b = join [LF] (l0 # l1 # ls)" using join_split [of LF b] ls by simp
  then show ?thesis using ls by (cases ls) simp_all
qed

lemma isRadixDigit_10: "isRadixDigit 10 c \<longleftrightarrow> isDigit c"
  by (auto simp: isRadixDigit_def digitValue_def isDigit_def word_le_nat_alt split: if_splits)

lemma parseInt_NaN:
  assumes "\<not> beginsWithDecimal (trimStart s)"
  shows "parseInt s = NaN"
proof -
  define S where "S = trimStart s"
  define S1 where "S1 = (case S of [] \<Rightarrow> S | c # cs \<Rightarrow> if c = 0x2B \<or> c = 0x2D then cs else S)"
  have nd: "S1 = [] \<or> \<not> isDigit (hd S1)"
    using assms unfolding S1_def S_def [symmetric] beginsWithDecimal_def
    by (auto split: list.splits if_splits simp: isDigit_def)
  have "\<not> (2 \<le> length S1 \<and> (take 2 S1 = str ''0x'' \<or> take 2 S1 = str ''0X''))"
  proof
    assume h: "2 \<le> length S1 \<and> (take 2 S1 = str ''0x'' \<or> take 2 S1 = str ''0X'')"
    then obtain a b r where "S1 = a # b # r" by (cases S1; cases "tl S1") auto
    with h have "hd S1 = 0x30" by (auto simp: str_def)
    with nd h show False by (auto simp: isDigit_def)
  qed
  then have nothex:
    "(2 \<le> length S1 \<and> (take 2 S1 = str ''0x'' \<or> take 2 S1 = str ''0X'')) = False"
    by simp
  have tw: "takeWhile (isRadixDigit 10) S1 = []"
    using nd by (cases S1) (auto simp: isRadixDigit_10)
  show ?thesis
    by (simp only: parseInt_def Let_def S_def [symmetric] S1_def [symmetric] nothex if_False tw
        if_True refl)
qed

lemma parseBlock_dropped:
  "length (split LF b) < 3 \<or> timeMatch (split LF b ! 1) = None \<Longrightarrow> parseBlock b = Inr None"
  by (auto simp: parseBlock_cases)

lemma entryOf_dropped:
  "length (split LF b) < 3 \<or> timeMatch (split LF b ! 1) = None \<Longrightarrow> entryOf b = None"
  using parseBlock_dropped [of b] by (simp add: entryOf_def)

section \<open>Numerals and the written output\<close>

lemma digitValue_digit: "k < 10 \<Longrightarrow> digitValue (0x30 + of_nat k) = Some k"
proof -
  assume "k < 10"
  then have "k \<in> {0,1,2,3,4,5,6,7,8,9}" by auto
  then show ?thesis by (auto simp: digitValue_def)
qed

lemma mathInt_snoc:
  "mathInt R (Z @ [c]) = (case digitValue c of Some v \<Rightarrow> mathInt R Z * R + v | None \<Rightarrow> mathInt R Z)"
  by (simp add: mathInt_def split: option.splits)

lemma mathInt_showNat: "mathInt 10 (showNat n) = n"
proof (induction n rule: showNat.induct)
  case (1 n)
  show ?case
  proof (cases "n < 10")
    case True
    then show ?thesis
      by (subst showNat.simps) (simp add: mathInt_def digitValue_digit)
  next
    case False
    have "n mod 10 < 10" by simp
    then have "digitValue (0x30 + of_nat (n mod 10)) = Some (n mod 10)"
      by (rule digitValue_digit)
    then show ?thesis using False 1
      by (subst showNat.simps) (simp add: mathInt_snoc)
  qed
qed


lemma parseInt_showNat: "parseInt (showNat n) = Num (int n)"
proof -
  let ?s = "showNat n"
  have dig: "\<forall>c \<in> set ?s. isDigit c" and ne: "?s \<noteq> []"
    using showNat_digits [of n] by simp_all
  then obtain c cs where s: "?s = c # cs" by (cases ?s) auto
  have c: "isDigit c" using dig s by simp
  then have nws: "\<not> isWhiteSpace c" and nsign: "c \<noteq> 0x2B" "c \<noteq> 0x2D"
    by (auto simp: isDigit_def isWhiteSpace_def word_le_nat_alt)
  have S: "trimStart ?s = ?s" using s nws by (simp add: trimStart_def)
  have nothex: "(2 \<le> length ?s \<and> (take 2 ?s = str ''0x'' \<or> take 2 ?s = str ''0X'')) = False"
  proof -
    have "\<not> isDigit 0x78" "\<not> isDigit 0x58" by (simp_all add: isDigit_def)
    moreover have "isDigit (?s ! 1)" if "2 \<le> length ?s"
      using that dig by (simp add: nth_mem)
    moreover have "?s ! 1 = 0x78" if "take 2 ?s = str ''0x''" "2 \<le> length ?s"
    proof -
      have "take 2 ?s ! 1 = ?s ! 1" by simp
      then show ?thesis using that by (simp add: str_def)
    qed
    moreover have "?s ! 1 = 0x58" if "take 2 ?s = str ''0X''" "2 \<le> length ?s"
    proof -
      have "take 2 ?s ! 1 = ?s ! 1" by simp
      then show ?thesis using that by (simp add: str_def)
    qed
    ultimately show ?thesis by metis
  qed
  have tw: "takeWhile (isRadixDigit 10) ?s = ?s"
    using dig by (simp add: isRadixDigit_10 takeWhile_eq_all_conv)
  have S1: "(case ?s of [] \<Rightarrow> ?s | c # cs \<Rightarrow> if c = 0x2B \<or> c = 0x2D then cs else ?s) = ?s"
    using s nsign by simp
  have neg: "(case ?s of [] \<Rightarrow> False | c # x \<Rightarrow> c = 0x2D) = False"
    using s nsign by simp
  show ?thesis
    using ne
    by (simp only: parseInt_def Let_def S S1 neg nothex if_False tw mathInt_showNat)
       (simp)
qed

lemma showNat_no_leading_zero: "0 < n \<Longrightarrow> hd (showNat n) \<noteq> 0x30"
proof (induction n rule: showNat.induct)
  case (1 n)
  show ?case
  proof (cases "n < 10")
    case True
    then have "n \<in> {1,2,3,4,5,6,7,8,9}" using "1.prems" by auto
    then show ?thesis by (subst showNat.simps) auto
  next
    case False
    then have "0 < n div 10" by simp
    then have "hd (showNat (n div 10)) \<noteq> 0x30" using False "1.IH" by simp
    moreover have "showNat (n div 10) \<noteq> []" using showNat_digits by simp
    ultimately show ?thesis using False by (subst showNat.simps) simp
  qed
qed

lemma showNat_numeral:
  "list_all isDigit (showNat (k + 1)) \<and> hd (showNat (k + 1)) \<noteq> 0x30 \<and>
   mathInt 10 (showNat (k + 1)) = k + 1 \<and> parseInt (showNat (k + 1)) = Num (int k + 1)"
  using showNat_digits [of "k + 1"] showNat_no_leading_zero [of "k + 1"]
  by (simp add: list_all_iff mathInt_showNat parseInt_showNat)

lemma showNat_examples:
  "showNat 1 = [0x31] \<and> showNat 2 = [0x32] \<and> showNat 10 = [0x31, 0x30] \<and>
   showNat 123 = [0x31, 0x32, 0x33]"
  by code_simp

lemma join_concat_upt:
  "join sep (map f [0..<n]) = concat (map (\<lambda>i. (if i = 0 then [] else sep) @ f i) [0..<n])"
proof (induction n)
  case 0
  then show ?case by simp
next
  case (Suc n)
  show ?case
  proof (cases "n = 0")
    case True
    then show ?thesis by simp
  next
    case False
    then have "map f [0..<n] \<noteq> []" by simp
    then have "join sep (map f [0..<n] @ [f n]) = join sep (map f [0..<n]) @ sep @ f n"
      by (rule join_snoc)
    then show ?thesis using Suc False by simp
  qed
qed

lemma generateSRT_concat:
  "generateSRT E =
     concat (map (\<lambda>i. (if i = 0 then [] else [LF]) @ showNat (i + 1) @ [LF] @
                        startTime (E ! i) @ arrow @ endTime (E ! i) @ [LF] @ text' (E ! i) @ [LF])
                 [0..<length E])"
proof -
  have "generateSRT E = join [LF] (map (\<lambda>k. renderEntry (E ! k) k) [0..<length E])"
    by (simp add: generateSRT_def mapIndexed_positions)
  then show ?thesis
    by (simp only: join_concat_upt) (simp add: renderEntry_def)
qed

lemma upt_split_at: "i < n \<Longrightarrow> [0..<n] = [0..<i] @ i # [Suc i..<n]"
proof -
  assume "i < n"
  then have "[0..<n] = [0..<i] @ [i..<n]"
    by (metis le_add_diff_inverse less_imp_le_nat upt_add_eq_append zero_le)
  moreover have "[i..<n] = i # [Suc i..<n]" using \<open>i < n\<close> by (rule upt_conv_Cons)
  ultimately show ?thesis by simp
qed

lemma generateSRT_units:
  "generateSRT E =
     concat (map (\<lambda>k. (if k = 0 then [] else [0x0A]) @ showNat (k + 1) @ [0x0A] @
                        startTime (E ! k) @ [0x20, 0x2D, 0x2D, 0x3E, 0x20] @ endTime (E ! k) @
                        [0x0A] @ text' (E ! k) @ [0x0A])
                 [0..<length E])"
  using generateSRT_concat [of E] by (simp add: LF_def arrow_def str_def cong: if_cong)

lemma generateSRT_occurs_units:
  assumes "i < length E"
  shows "\<exists>pre post. generateSRT E =
     pre @ showNat (i + 1) @ [0x0A] @ startTime (E ! i) @ [0x20, 0x2D, 0x2D, 0x3E, 0x20] @
     endTime (E ! i) @ [0x0A] @ text' (E ! i) @ [0x0A] @ post \<and>
     pre = concat (map (\<lambda>k. (if k = 0 then [] else [0x0A]) @ showNat (k + 1) @ [0x0A] @
                        startTime (E ! k) @ [0x20, 0x2D, 0x2D, 0x3E, 0x20] @ endTime (E ! k) @
                        [0x0A] @ text' (E ! k) @ [0x0A])
                 [0..<i]) @ (if i = 0 then [] else [0x0A])"
proof -
  let ?blk = "\<lambda>k. (if k = 0 then [] else [0x0A]) @ showNat (k + 1) @ [0x0A] @
                        startTime (E ! k) @ [0x20, 0x2D, 0x2D, 0x3E, 0x20] @ endTime (E ! k) @
                        [0x0A] @ text' (E ! k) @ [0x0A]"
  have "generateSRT E = concat (map ?blk [0..<length E])" by (rule generateSRT_units)
  also have "\<dots> = concat (map ?blk [0..<i]) @ ?blk i @ concat (map ?blk [Suc i..<length E])"
    by (simp only: upt_split_at [OF assms] map_append list.map concat_append concat.simps)
  finally have "generateSRT E =
     (concat (map ?blk [0..<i]) @ (if i = 0 then [] else [0x0A])) @ showNat (i + 1) @ [0x0A] @
     startTime (E ! i) @ [0x20, 0x2D, 0x2D, 0x3E, 0x20] @ endTime (E ! i) @ [0x0A] @
     text' (E ! i) @ [0x0A] @ concat (map ?blk [Suc i..<length E])"
    by simp
  then show ?thesis by blast
qed

lemma generateSRT_three:
  "generateSRT [a, b, c] =
     [0x31, 0x0A] @ startTime a @ [0x20, 0x2D, 0x2D, 0x3E, 0x20] @ endTime a @ [0x0A] @
     text' a @ [0x0A, 0x0A, 0x32, 0x0A] @ startTime b @ [0x20, 0x2D, 0x2D, 0x3E, 0x20] @
     endTime b @ [0x0A] @ text' b @ [0x0A, 0x0A, 0x33, 0x0A] @ startTime c @
     [0x20, 0x2D, 0x2D, 0x3E, 0x20] @ endTime c @ [0x0A] @ text' c @ [0x0A]"
proof -
  have n: "showNat (Suc 0) = [0x31]" "showNat (Suc (Suc 0)) = [0x32]"
    "showNat (Suc (Suc (Suc 0))) = [0x33]"
    by code_simp+
  show ?thesis
    by (simp add: generateSRT_def renderEntry_def n LF_def arrow_def str_def)
qed

lemma generateSRT_translated_units:
  "generateSRT (map (\<lambda>e. e\<lparr>text' := g (text' e)\<rparr>) entries) =
     concat (map (\<lambda>k. (if k = 0 then [] else [0x0A]) @ showNat (k + 1) @ [0x0A] @
                        startTime (entries ! k) @ [0x20, 0x2D, 0x2D, 0x3E, 0x20] @
                        endTime (entries ! k) @ [0x0A] @ g (text' (entries ! k)) @ [0x0A])
                 [0..<length entries])"
proof -
  let ?E = "map (\<lambda>e. e\<lparr>text' := g (text' e)\<rparr>) entries"
  have "generateSRT ?E =
     concat (map (\<lambda>k. (if k = 0 then [] else [0x0A]) @ showNat (k + 1) @ [0x0A] @
                        startTime (?E ! k) @ [0x20, 0x2D, 0x2D, 0x3E, 0x20] @
                        endTime (?E ! k) @ [0x0A] @ text' (?E ! k) @ [0x0A])
                 [0..<length ?E])"
    by (rule generateSRT_units)
  also have "\<dots> =
     concat (map (\<lambda>k. (if k = 0 then [] else [0x0A]) @ showNat (k + 1) @ [0x0A] @
                        startTime (entries ! k) @ [0x20, 0x2D, 0x2D, 0x3E, 0x20] @
                        endTime (entries ! k) @ [0x0A] @ g (text' (entries ! k)) @ [0x0A])
                 [0..<length entries])"
    by (rule arg_cong [where f = concat], rule map_cong) simp_all
  finally show ?thesis .
qed

section \<open>The generator\<close>

text \<open>
  C4 (generator output format). For every entry list \<open>E\<close>, \<open>generateSRT E\<close> is the join,
  with one line feed, of one string per position \<open>i\<close>: the numeral of \<open>i + 1\<close>, a line
  feed, the start time, the arrow, the end time, a line feed, the text, a line feed. The
  empty list gives the empty string; one more entry adds one line feed (the blank line
  after the line feed that ends the block before) and its own block; the output of a
  non-empty list starts with a digit, so no blank line leads it. The same output is
  written out by its code units, with no function of the model but the numeral; the
  numeral of \<open>k + 1\<close> is made of decimal digits, has no leading zero, has the value
  \<open>k + 1\<close> and reads back through \<open>parseInt\<close>; the numerals of 1, 2, 10 and 123, the line
  feed and the arrow are the expected code units; and two entries, the second with a
  text of two lines, give the expected text.
\<close>

theorem generateSRT_format:
  "generateSRT E =
     join [LF] (map (\<lambda>i. showNat (i + 1) @ [LF] @ startTime (E ! i) @ str '' --> '' @
                          endTime (E ! i) @ [LF] @ text' (E ! i) @ [LF]) [0..<length E])
   \<and> generateSRT [] = []
   \<and> generateSRT [e] =
       showNat 1 @ [LF] @ startTime e @ str '' --> '' @ endTime e @ [LF] @ text' e @ [LF]
   \<and> generateSRT (E @ [e, e']) =
       generateSRT (E @ [e]) @ [LF] @ showNat (length E + 2) @ [LF] @ startTime e' @
       str '' --> '' @ endTime e' @ [LF] @ text' e' @ [LF]
   \<and> (\<exists>pre. generateSRT (E @ [e]) = pre @ text' e @ [LF])
   \<and> (\<exists>d rest. generateSRT (e # E) = d # rest \<and> isDigit d)
   \<and> generateSRT E =
       concat (map (\<lambda>i. (if i = 0 then [] else [0x0A]) @ showNat (i + 1) @ [0x0A] @
                          startTime (E ! i) @ [0x20, 0x2D, 0x2D, 0x3E, 0x20] @ endTime (E ! i) @
                          [0x0A] @ text' (E ! i) @ [0x0A])
                   [0..<length E])
   \<and> list_all isDigit (showNat (k + 1)) \<and> hd (showNat (k + 1)) \<noteq> 0x30
   \<and> mathInt 10 (showNat (k + 1)) = k + 1 \<and> parseInt (showNat (k + 1)) = Num (int k + 1)
   \<and> showNat 1 = [0x31] \<and> showNat 2 = [0x32] \<and> showNat 10 = [0x31, 0x30]
   \<and> showNat 123 = [0x31, 0x32, 0x33]
   \<and> LF = 0x0A \<and> str '' --> '' = [0x20, 0x2D, 0x2D, 0x3E, 0x20]
   \<and> generateSRT
        [\<lparr>index = Num 7, startTime = str ''00:00:01,000'', endTime = str ''00:00:02,000'',
           text' = str ''A''\<rparr>,
         \<lparr>index = NaN, startTime = str ''00:00:03,000'', endTime = str ''00:00:04,000'',
           text' = str ''B\<newline>b''\<rparr>] =
       [0x31, 0x0A] @ str ''00:00:01,000 --> 00:00:02,000'' @ [0x0A, 0x41, 0x0A, 0x0A, 0x32, 0x0A] @
       str ''00:00:03,000 --> 00:00:04,000'' @ [0x0A, 0x42, 0x0A, 0x62, 0x0A]"
proof -
  have p1: "generateSRT E =
     join [LF] (map (\<lambda>i. showNat (i + 1) @ [LF] @ startTime (E ! i) @ str '' --> '' @
                          endTime (E ! i) @ [LF] @ text' (E ! i) @ [LF]) [0..<length E])"
    by (simp add: generateSRT_def mapIndexed_positions renderEntry_def arrow_def)
  have p2: "generateSRT [] = []"
    by (simp add: generateSRT_def)
  have p3: "generateSRT [e] =
       showNat 1 @ [LF] @ startTime e @ str '' --> '' @ endTime e @ [LF] @ text' e @ [LF]"
    by (simp add: generateSRT_def renderEntry_def arrow_def)
  have p4: "generateSRT (E @ [e, e']) =
       generateSRT (E @ [e]) @ [LF] @ showNat (length E + 2) @ [LF] @ startTime e' @
       str '' --> '' @ endTime e' @ [LF] @ text' e' @ [LF]"
    using generateSRT_snoc [of "E @ [e]" e'] by (simp add: renderEntry_def arrow_def)
  have p5: "\<exists>pre. generateSRT (E @ [e]) = pre @ text' e @ [LF]"
  proof (cases "E = []")
    case True
    then show ?thesis using generateSRT_snoc [of E e]
      by (simp add: renderEntry_def)
  next
    case False
    have "generateSRT (E @ [e]) =
            (generateSRT E @ [LF] @ showNat (length E + 1) @ [LF] @ startTime e @ arrow @
             endTime e @ [LF]) @ text' e @ [LF]"
      using False generateSRT_snoc [of E e] by (simp add: renderEntry_def)
    then show ?thesis by blast
  qed
  have p6: "\<exists>d rest. generateSRT (e # E) = d # rest \<and> isDigit d"
  proof -
    obtain d ds where ds: "showNat 1 = d # ds" "isDigit d"
      using showNat_digits [of 1] by (cases "showNat 1") auto
    have "\<exists>tl. generateSRT (e # E) = renderEntry e 0 @ tl"
      by (cases E) (simp_all add: generateSRT_def)
    then show ?thesis using ds by (auto simp: renderEntry_def)
  qed
  have p7: "generateSRT E =
       concat (map (\<lambda>i. (if i = 0 then [] else [0x0A]) @ showNat (i + 1) @ [0x0A] @
                          startTime (E ! i) @ [0x20, 0x2D, 0x2D, 0x3E, 0x20] @ endTime (E ! i) @
                          [0x0A] @ text' (E ! i) @ [0x0A])
                   [0..<length E])"
    using generateSRT_concat [of E] by (simp add: LF_def arrow_def str_def cong: if_cong)
  have p8: "list_all isDigit (showNat (k + 1)) \<and> hd (showNat (k + 1)) \<noteq> 0x30
   \<and> mathInt 10 (showNat (k + 1)) = k + 1 \<and> parseInt (showNat (k + 1)) = Num (int k + 1)"
    by (rule showNat_numeral)
  have p9: "showNat 1 = [0x31] \<and> showNat 2 = [0x32] \<and> showNat 10 = [0x31, 0x30]
   \<and> showNat 123 = [0x31, 0x32, 0x33]"
    by (rule showNat_examples)
  have p10: "LF = 0x0A \<and> str '' --> '' = [0x20, 0x2D, 0x2D, 0x3E, 0x20]"
    by (simp add: LF_def str_def)
  have p11: "generateSRT
        [\<lparr>index = Num 7, startTime = str ''00:00:01,000'', endTime = str ''00:00:02,000'',
           text' = str ''A''\<rparr>,
         \<lparr>index = NaN, startTime = str ''00:00:03,000'', endTime = str ''00:00:04,000'',
           text' = str ''B\<newline>b''\<rparr>] =
       [0x31, 0x0A] @ str ''00:00:01,000 --> 00:00:02,000'' @ [0x0A, 0x41, 0x0A, 0x0A, 0x32, 0x0A] @
       str ''00:00:03,000 --> 00:00:04,000'' @ [0x0A, 0x42, 0x0A, 0x62, 0x0A]"
    by code_simp
  show ?thesis
    by (intro conjI p1 p2 p3 p4 p5 p6 p7 p8 [THEN conjunct1] p8 [THEN conjunct2, THEN conjunct1]
        p8 [THEN conjunct2, THEN conjunct2, THEN conjunct1]
        p8 [THEN conjunct2, THEN conjunct2, THEN conjunct2]
        p9 [THEN conjunct1] p9 [THEN conjunct2, THEN conjunct1]
        p9 [THEN conjunct2, THEN conjunct2, THEN conjunct1]
        p9 [THEN conjunct2, THEN conjunct2, THEN conjunct2]
        p10 [THEN conjunct1] p10 [THEN conjunct2] p11)
qed

theorem generateSRT_format_witness:
  "generateSRT
     [\<lparr>index = Num 7, startTime = str ''00:00:01,000'', endTime = str ''00:00:02,000'',
        text' = str ''A''\<rparr>,
      \<lparr>index = NaN, startTime = str ''00:00:03,000'', endTime = str ''00:00:04,000'',
        text' = str ''B''\<rparr>,
      \<lparr>index = Num 1, startTime = str ''00:00:05,000'', endTime = str ''00:00:06,000'',
        text' = str ''C''\<rparr>] =
   str ''1\<newline>00:00:01,000 --> 00:00:02,000\<newline>A\<newline>\<newline>2\<newline>00:00:03,000 --> 00:00:04,000\<newline>B\<newline>\<newline>3\<newline>00:00:05,000 --> 00:00:06,000\<newline>C\<newline>''"
proof -
  let ?a = "\<lparr>index = Num 7, startTime = str ''00:00:01,000'', endTime = str ''00:00:02,000'',
        text' = str ''A''\<rparr>"
  let ?b = "\<lparr>index = NaN, startTime = str ''00:00:03,000'', endTime = str ''00:00:04,000'',
        text' = str ''B''\<rparr>"
  let ?c = "\<lparr>index = Num 1, startTime = str ''00:00:05,000'', endTime = str ''00:00:06,000'',
        text' = str ''C''\<rparr>"
  have c: "generateSRT [?a, ?b, ?c] =
       concat (map (\<lambda>i. (if i = 0 then [] else [0x0A]) @ showNat (i + 1) @ [0x0A] @
                          startTime ([?a, ?b, ?c] ! i) @ [0x20, 0x2D, 0x2D, 0x3E, 0x20] @
                          endTime ([?a, ?b, ?c] ! i) @ [0x0A] @ text' ([?a, ?b, ?c] ! i) @ [0x0A])
                   [0..<length [?a, ?b, ?c]])"
    using generateSRT_format [of "[?a, ?b, ?c]" ?a ?b 0] by (elim conjE)
  have r: "concat (map (\<lambda>i. (if i = 0 then [] else [0x0A]) @ showNat (i + 1) @ [0x0A] @
                          startTime ([?a, ?b, ?c] ! i) @ [0x20, 0x2D, 0x2D, 0x3E, 0x20] @
                          endTime ([?a, ?b, ?c] ! i) @ [0x0A] @ text' ([?a, ?b, ?c] ! i) @ [0x0A])
                   [0..<length [?a, ?b, ?c]]) =
     str ''1\<newline>00:00:01,000 --> 00:00:02,000\<newline>A\<newline>\<newline>2\<newline>00:00:03,000 --> 00:00:04,000\<newline>B\<newline>\<newline>3\<newline>00:00:05,000 --> 00:00:06,000\<newline>C\<newline>''"
    by code_simp
  from c r show ?thesis by (rule trans)
qed

section \<open>The placeholder translation\<close>

text \<open>
  C5 (placeholder translation mapping). With the target language \<open>hebrew\<close> the result is
  the Hebrew literal followed by the text; with every other target language it is
  \<open>Translation: \<close> followed by the text; the two literals differ, and the text is a
  suffix of the result in both cases.
\<close>

theorem translateText_mapping:
  "translateText t (str ''hebrew'') = Inr (hebrewPrefix @ t)
   \<and> (l \<noteq> str ''hebrew'' \<longrightarrow> translateText t l = Inr (str ''Translation: '' @ t))
   \<and> hebrewPrefix \<noteq> str ''Translation: ''
   \<and> (\<exists>r. translateText t l = Inr r \<and> suffix t r)"
  by (auto simp: translateText_def hebrewPrefix_def str_def suffix_def)

theorem translateText_mapping_witness:
  "translateText (str ''Hello'') (str ''english'') = Inr (str ''Translation: Hello'')
   \<and> translateText (str ''Hello'') (str ''hebrew'') = Inr (hebrewPrefix @ str ''Hello'')"
  using translateText_mapping [of "str ''Hello''" "str ''english''"]
  by (simp add: str_def)

section \<open>The parser\<close>

text \<open>
  C3 (malformed block dropping). A block with fewer than three lines pushes no entry and
  does not throw; neither does a block with at least three lines whose second line holds
  no occurrence of a timecode, the arrow and a timecode. Such a block, wherever it stands
  among the blocks of an input, leaves the result of \<open>parseSRT\<close> what it is for the other
  blocks alone, and \<open>parseSRT\<close> returns. The input \<^verbatim>\<open>5\nnot-a-timecode\nHello\<close> gives
  no entry.
\<close>

theorem malformed_block_dropped:
  "(length (split LF b) < 3 \<longrightarrow> parseBlock b = Inr None)
   \<and> (3 \<le> length (split LF b) \<and>
        \<not> (\<exists>pre a z post. split LF b ! 1 = pre @ a @ arrow @ z @ post \<and>
                           isTimecode a \<and> isTimecode z)
        \<longrightarrow> parseBlock b = Inr None)
   \<and> (splitBlocks (trim X) = bs1 @ b # bs2 \<and>
        (length (split LF b) < 3 \<or>
         \<not> (\<exists>pre a z post. split LF b ! 1 = pre @ a @ arrow @ z @ post \<and>
                            isTimecode a \<and> isTimecode z))
        \<longrightarrow> parseSRT X = forEachBlock (bs1 @ bs2) [] \<and> (\<exists>es. parseSRT X = Inr es))
   \<and> parseSRT (str ''5\<newline>not-a-timecode\<newline>Hello'') = Inr []"
proof -
  define occurs where
    "occurs = (\<exists>pre a z post. split LF b ! 1 = pre @ a @ arrow @ z @ post \<and>
                              isTimecode a \<and> isTimecode z)"
  have tm: "timeMatch (split LF b ! 1) = None \<longleftrightarrow> \<not> occurs"
    unfolding occurs_def by (rule timeMatch_None_contains)
  have short: "length (split LF b) < 3 \<longrightarrow> parseBlock b = Inr None"
    by (simp add: parseBlock_dropped)
  have nomatch: "3 \<le> length (split LF b) \<and> \<not> occurs \<longrightarrow> parseBlock b = Inr None"
    using tm by (simp add: parseBlock_dropped)
  have whole: "splitBlocks (trim X) = bs1 @ b # bs2 \<and> (length (split LF b) < 3 \<or> \<not> occurs)
      \<longrightarrow> parseSRT X = forEachBlock (bs1 @ bs2) [] \<and> (\<exists>es. parseSRT X = Inr es)"
  proof
    assume a: "splitBlocks (trim X) = bs1 @ b # bs2 \<and> (length (split LF b) < 3 \<or> \<not> occurs)"
    then have "length (split LF b) < 3 \<or> timeMatch (split LF b ! 1) = None"
      using tm by simp
    then have "entryOf b = None" by (rule entryOf_dropped)
    moreover from a have "splitBlocks (trim X) = bs1 @ b # bs2" by (rule conjunct1)
    ultimately have "parseSRT X = forEachBlock (bs1 @ bs2) []"
      by (simp add: parseSRT_def forEachBlock_entries map_filter_append List.map_filter_simps)
    moreover have "\<exists>es. parseSRT X = Inr es"
      using parseSRT_entries by blast
    ultimately show "parseSRT X = forEachBlock (bs1 @ bs2) [] \<and> (\<exists>es. parseSRT X = Inr es)"
      by (rule conjI)
  qed
  have ex: "parseSRT (str ''5\<newline>not-a-timecode\<newline>Hello'') = Inr []"
    by code_simp
  from short nomatch whole ex show ?thesis
    unfolding occurs_def by (intro conjI)
qed

theorem malformed_block_dropped_witness:
  "parseBlock (str ''5\<newline>not-a-timecode\<newline>Hello'') = Inr None
   \<and> parseBlock (str ''5\<newline>00:00:01,000 --> 00:00:02,000'') = Inr None
   \<and> parseSRT (str ''1\<newline>00:00:01,000 --> 00:00:02,000\<newline>Hi\<newline>\<newline>5\<newline>not-a-timecode\<newline>Hello'')
       = Inr [\<lparr>index = Num 1, startTime = str ''00:00:01,000'', endTime = str ''00:00:02,000'',
               text' = str ''Hi''\<rparr>]"
proof -
  let ?b = "str ''5\<newline>not-a-timecode\<newline>Hello''"
  let ?c = "str ''5\<newline>00:00:01,000 --> 00:00:02,000''"
  let ?X = "str ''1\<newline>00:00:01,000 --> 00:00:02,000\<newline>Hi\<newline>\<newline>5\<newline>not-a-timecode\<newline>Hello''"
  let ?b1 = "str ''1\<newline>00:00:01,000 --> 00:00:02,000\<newline>Hi''"
  have len: "3 \<le> length (split LF ?b)" by code_simp
  have "timeMatch (split LF ?b ! 1) = None" by code_simp
  then have nomatch: "\<not> (\<exists>pre a z post. split LF ?b ! 1 = pre @ a @ arrow @ z @ post \<and>
                           isTimecode a \<and> isTimecode z)"
    by (rule iffD1 [OF timeMatch_None_contains])
  have short: "length (split LF ?c) < 3" by code_simp
  have blocks: "splitBlocks (trim ?X) = [?b1] @ ?b # []" by code_simp
  have rest: "forEachBlock ([?b1] @ []) [] =
      Inr [\<lparr>index = Num 1, startTime = str ''00:00:01,000'', endTime = str ''00:00:02,000'',
               text' = str ''Hi''\<rparr>]" by code_simp
  have 1: "parseBlock ?b = Inr None"
    using malformed_block_dropped [of ?b] len nomatch by blast
  have 2: "parseBlock ?c = Inr None"
    using malformed_block_dropped [of ?c] short by blast
  have 3: "parseSRT ?X = forEachBlock ([?b1] @ []) []"
    using malformed_block_dropped [of ?b ?X "[?b1]" "[]"] blocks nomatch by blast
  from 3 rest have 4: "parseSRT ?X =
      Inr [\<lparr>index = Num 1, startTime = str ''00:00:01,000'', endTime = str ''00:00:02,000'',
               text' = str ''Hi''\<rparr>]" by (rule trans)
  show ?thesis by (rule conjI [OF 1 conjI [OF 2 4]])
qed

text \<open>
  C6 (multi-line caption preservation). The text of the entry of an accepted block is the
  lines after the second one, joined by line feeds and trimmed: the block is its first
  line, a line feed, its second line, a line feed and a rest, and the text is that rest
  without the white space at its two ends, line feeds inside it included. The block
  \<^verbatim>\<open>1\n00:00:01,000 --> 00:00:02,000\nLine one\nLine two\<close> gives one entry with the
  text \<^verbatim>\<open>Line one\nLine two\<close>.
\<close>

theorem caption_text:
  "(parseBlock b = Inr (Some e) \<longrightarrow>
      text' e = trim (join [LF] (drop 2 (split LF b))) \<and>
      (\<exists>line0 line1 rest l r.
          b = line0 @ [LF] @ line1 @ [LF] @ rest \<and> LF \<notin> set line0 \<and> LF \<notin> set line1 \<and>
          rest = l @ text' e @ r \<and>
          (\<forall>c \<in> set l. isWhiteSpace c) \<and> (\<forall>c \<in> set r. isWhiteSpace c) \<and>
          (text' e = [] \<or> \<not> isWhiteSpace (hd (text' e)) \<and> \<not> isWhiteSpace (last (text' e)))))
   \<and> parseSRT (str ''1\<newline>00:00:01,000 --> 00:00:02,000\<newline>Line one\<newline>Line two'') =
       Inr [\<lparr>index = Num 1, startTime = str ''00:00:01,000'', endTime = str ''00:00:02,000'',
               text' = str ''Line one\<newline>Line two''\<rparr>]"
proof -
  have gen: "text' e = trim (join [LF] (drop 2 (split LF b))) \<and>
      (\<exists>line0 line1 rest l r.
          b = line0 @ [LF] @ line1 @ [LF] @ rest \<and> LF \<notin> set line0 \<and> LF \<notin> set line1 \<and>
          rest = l @ text' e @ r \<and>
          (\<forall>c \<in> set l. isWhiteSpace c) \<and> (\<forall>c \<in> set r. isWhiteSpace c) \<and>
          (text' e = [] \<or> \<not> isWhiteSpace (hd (text' e)) \<and> \<not> isWhiteSpace (last (text' e))))"
    if pb: "parseBlock b = Inr (Some e)"
  proof -
    let ?ls = "split LF b"
    let ?rest = "join [LF] (drop 2 ?ls)"
    have len: "3 \<le> length ?ls" and tx: "text' e = trim ?rest"
      using pb by (auto simp: parseBlock_cases split: if_splits option.splits)
    have b: "b = ?ls ! 0 @ [LF] @ ?ls ! 1 @ [LF] @ ?rest"
      using split_two_lines [of b] len by simp
    have "?ls ! 0 \<in> set ?ls" and "?ls ! 1 \<in> set ?ls"
      using len by (simp_all only: nth_mem)
    then have n0: "LF \<notin> set (?ls ! 0)" and n1: "LF \<notin> set (?ls ! 1)"
      by (simp_all only: split_no_sep not_False_eq_True)
    obtain l r where lr: "?rest = l @ trim ?rest @ r" "\<forall>c \<in> set l. isWhiteSpace c"
      "\<forall>c \<in> set r. isWhiteSpace c"
      using trim_decomp [of ?rest] by blast
    have ends: "text' e = [] \<or> \<not> isWhiteSpace (hd (text' e)) \<and> \<not> isWhiteSpace (last (text' e))"
      using trim_ends [of ?rest] tx by auto
    have "b = ?ls ! 0 @ [LF] @ ?ls ! 1 @ [LF] @ ?rest \<and> LF \<notin> set (?ls ! 0) \<and>
          LF \<notin> set (?ls ! 1) \<and> ?rest = l @ text' e @ r \<and>
          (\<forall>c \<in> set l. isWhiteSpace c) \<and> (\<forall>c \<in> set r. isWhiteSpace c) \<and>
          (text' e = [] \<or> \<not> isWhiteSpace (hd (text' e)) \<and> \<not> isWhiteSpace (last (text' e)))"
      using b n0 n1 lr ends tx by simp
    then show ?thesis using tx by blast
  qed
  have ex: "parseSRT (str ''1\<newline>00:00:01,000 --> 00:00:02,000\<newline>Line one\<newline>Line two'') =
       Inr [\<lparr>index = Num 1, startTime = str ''00:00:01,000'', endTime = str ''00:00:02,000'',
               text' = str ''Line one\<newline>Line two''\<rparr>]"
    by code_simp
  show ?thesis using gen ex by blast
qed

theorem caption_text_witness:
  "parseBlock (str ''1\<newline>00:00:01,000 --> 00:00:02,000\<newline>  Line one\<newline>Line two '') =
     Inr (Some \<lparr>index = Num 1, startTime = str ''00:00:01,000'', endTime = str ''00:00:02,000'',
               text' = str ''Line one\<newline>Line two''\<rparr>)
   \<and> trim (join [LF] (drop 2 (split LF
        (str ''1\<newline>00:00:01,000 --> 00:00:02,000\<newline>  Line one\<newline>Line two '')))) =
      str ''Line one\<newline>Line two''"
proof -
  let ?b = "str ''1\<newline>00:00:01,000 --> 00:00:02,000\<newline>  Line one\<newline>Line two ''"
  let ?e = "\<lparr>index = Num 1, startTime = str ''00:00:01,000'', endTime = str ''00:00:02,000'',
               text' = str ''Line one\<newline>Line two''\<rparr>"
  have pb: "parseBlock ?b = Inr (Some ?e)" by code_simp
  have "text' ?e = trim (join [LF] (drop 2 (split LF ?b)))"
    using caption_text [of ?b ?e] pb by blast
  then have "trim (join [LF] (drop 2 (split LF ?b))) = str ''Line one\<newline>Line two''"
    by (simp only: SRTEntry.simps)
  with pb show ?thesis by (rule conjI)
qed

section \<open>Positions of the accepted blocks\<close>

lemma map_filter_positions:
  "\<exists>js. length js = length (List.map_filter f xs) \<and> sorted_wrt (<) js \<and>
     (\<forall>k < length js. js ! k < length xs \<and> f (xs ! (js ! k)) = Some (List.map_filter f xs ! k)) \<and>
     (\<forall>j < length xs. j \<notin> set js \<longrightarrow> f (xs ! j) = None)"
proof (induction xs)
  case Nil
  then show ?case by (simp add: List.map_filter_simps)
next
  case (Cons x xs)
  then obtain js where js: "length js = length (List.map_filter f xs)" "sorted_wrt (<) js"
    "\<forall>k < length js. js ! k < length xs \<and> f (xs ! (js ! k)) = Some (List.map_filter f xs ! k)"
    "\<forall>j < length xs. j \<notin> set js \<longrightarrow> f (xs ! j) = None"
    by blast
  have unused: "f ((x # xs) ! j) = None"
    if lt: "j < length (x # xs)" and notin: "j \<notin> set (map Suc js)" and nz: "j \<noteq> 0" for j
  proof -
    obtain j' where j': "j = Suc j'" using nz by (cases j) auto
    then have "j' \<notin> set js" "j' < length xs" using lt notin by auto
    then show ?thesis using js(4) j' by simp
  qed
  have srt: "sorted_wrt (<) (map Suc js)"
    using js(2) by (simp add: sorted_wrt_map)
  show ?case
  proof (cases "f x")
    case None
    have "length (map Suc js) = length (List.map_filter f (x # xs))"
      using js(1) None by (simp add: List.map_filter_simps)
    moreover have "\<forall>k < length (map Suc js). map Suc js ! k < length (x # xs) \<and>
        f ((x # xs) ! (map Suc js ! k)) = Some (List.map_filter f (x # xs) ! k)"
      using js(3) None by (simp add: List.map_filter_simps)
    moreover have "\<forall>j < length (x # xs). j \<notin> set (map Suc js) \<longrightarrow> f ((x # xs) ! j) = None"
    proof (intro allI impI)
      fix j assume "j < length (x # xs)" "j \<notin> set (map Suc js)"
      then show "f ((x # xs) ! j) = None"
        using unused [of j] None by (cases "j = 0") simp_all
    qed
    ultimately show ?thesis using srt by blast
  next
    case (Some y)
    let ?js = "0 # map Suc js"
    have "length ?js = length (List.map_filter f (x # xs))"
      using js(1) Some by (simp add: List.map_filter_simps)
    moreover have "sorted_wrt (<) ?js" using srt by auto
    moreover have "\<forall>k < length ?js. ?js ! k < length (x # xs) \<and>
        f ((x # xs) ! (?js ! k)) = Some (List.map_filter f (x # xs) ! k)"
    proof (intro allI impI)
      fix k assume k: "k < length ?js"
      show "?js ! k < length (x # xs) \<and>
        f ((x # xs) ! (?js ! k)) = Some (List.map_filter f (x # xs) ! k)"
      proof (cases k)
        case 0
        then show ?thesis using Some by (simp add: List.map_filter_simps)
      next
        case (Suc k')
        then have "k' < length js" using k by simp
        then show ?thesis using js(3) Some Suc by (simp add: List.map_filter_simps)
      qed
    qed
    moreover have "\<forall>j < length (x # xs). j \<notin> set ?js \<longrightarrow> f ((x # xs) ! j) = None"
    proof (intro allI impI)
      fix j assume "j < length (x # xs)" "j \<notin> set ?js"
      then show "f ((x # xs) ! j) = None"
        using unused [of j] by simp
    qed
    ultimately show ?thesis by blast
  qed
qed

section \<open>Round trip\<close>

lemma entryOf_Some_iff: "entryOf b = Some e \<longleftrightarrow> parseBlock b = Inr (Some e)"
  by (simp add: parseBlock_Inr)

lemma entryOf_None_iff: "entryOf b = None \<longleftrightarrow> parseBlock b = Inr None"
  by (simp add: parseBlock_Inr)

lemma parseSRT_positions:
  assumes "parseSRT X = Inr es"
  shows "\<exists>js. length js = length es \<and> sorted_wrt (<) js \<and>
     (\<forall>k < length es. js ! k < length (splitBlocks (trim X)) \<and>
         parseBlock (splitBlocks (trim X) ! (js ! k)) = Inr (Some (es ! k))) \<and>
     (\<forall>j < length (splitBlocks (trim X)). j \<notin> set js \<longrightarrow>
         parseBlock (splitBlocks (trim X) ! j) = Inr None)"
proof -
  have es: "es = List.map_filter entryOf (splitBlocks (trim X))"
    using assms by (simp add: parseSRT_entries)
  show ?thesis
    using map_filter_positions [of entryOf "splitBlocks (trim X)"]
    unfolding es [symmetric] entryOf_Some_iff entryOf_None_iff
    by (elim exE conjE, intro exI conjI) simp_all
qed

lemma generateSRT_blocks:
  "\<exists>blocks. generateSRT es = join [LF] blocks \<and> length blocks = length es \<and>
     (\<forall>i < length es. blocks ! i =
        showNat (i + 1) @ [LF] @ startTime (es ! i) @ arrow @ endTime (es ! i) @ [LF] @
        text' (es ! i) @ [LF])"
proof -
  have "generateSRT es = join [LF] (mapIndexed renderEntry 0 es)"
    by (simp add: generateSRT_def)
  moreover have "length (mapIndexed renderEntry 0 es) = length es"
    by (rule length_mapIndexed)
  moreover have "\<forall>i < length es. mapIndexed renderEntry 0 es ! i =
        showNat (i + 1) @ [LF] @ startTime (es ! i) @ arrow @ endTime (es ! i) @ [LF] @
        text' (es ! i) @ [LF]"
    by (simp add: nth_mapIndexed renderEntry_def)
  ultimately show ?thesis by blast
qed



section \<open>Timecodes\<close>

lemma parseBlock_Some_timecodes:
  assumes "parseBlock b = Inr (Some e)"
  shows "3 \<le> length (split LF b)"
    and "timeMatch (split LF b ! 1) = Some (startTime e, endTime e)"
  using assms by (auto simp: parseBlock_cases split: if_splits option.splits)

lemma parseBlock_accepts_iff:
  "(\<exists>e. parseBlock b = Inr (Some e)) \<longleftrightarrow>
     3 \<le> length (split LF b) \<and> timeMatch (split LF b ! 1) \<noteq> None"
  by (auto simp: parseBlock_cases split: if_splits option.splits)

text \<open>
  C2 (timecode preservation). The entry at position \<open>i\<close> of the result comes from a block of
  the input whose second line holds its start time, the arrow and its end time as they
  stand, these being the two groups the expression captured. The text that \<open>generateSRT\<close>
  writes holds, after the blocks of the entries before it and the numeral of \<open>i + 1\<close>, the
  same start time, the arrow and the same end time, and is as a whole the sequence of the
  blocks of all entries, written here by code units. A block is accepted exactly when it
  has three lines and the expression matches its second line: nothing compares the two
  times.
\<close>

theorem timecode_preservation:
  "(parseSRT X = Inr es \<and> i < length es \<longrightarrow>
      (\<exists>b line1 pre post.
          b \<in> set (splitBlocks (trim X)) \<and> parseBlock b = Inr (Some (es ! i)) \<and>
          at (split LF b) 1 = Some line1 \<and>
          timeMatch line1 = Some (startTime (es ! i), endTime (es ! i)) \<and>
          line1 = pre @ startTime (es ! i) @ arrow @ endTime (es ! i) @ post)
      \<and> (\<exists>blocks. generateSRT es = join [LF] blocks \<and> length blocks = length es \<and>
            blocks ! i =
              showNat (i + 1) @ [LF] @ startTime (es ! i) @ arrow @ endTime (es ! i) @ [LF] @
              text' (es ! i) @ [LF])
      \<and> (\<exists>pre post.
            generateSRT es =
              pre @ showNat (i + 1) @ [0x0A] @ startTime (es ! i) @
              [0x20, 0x2D, 0x2D, 0x3E, 0x20] @ endTime (es ! i) @ [0x0A] @ text' (es ! i) @
              [0x0A] @ post \<and>
            pre =
              concat (map (\<lambda>k. (if k = 0 then [] else [0x0A]) @ showNat (k + 1) @ [0x0A] @
                                startTime (es ! k) @ [0x20, 0x2D, 0x2D, 0x3E, 0x20] @
                                endTime (es ! k) @ [0x0A] @ text' (es ! k) @ [0x0A])
                          [0..<i]) @ (if i = 0 then [] else [0x0A])))
   \<and> generateSRT es =
       concat (map (\<lambda>k. (if k = 0 then [] else [0x0A]) @ showNat (k + 1) @ [0x0A] @
                          startTime (es ! k) @ [0x20, 0x2D, 0x2D, 0x3E, 0x20] @
                          endTime (es ! k) @ [0x0A] @ text' (es ! k) @ [0x0A])
                   [0..<length es])
   \<and> LF = 0x0A \<and> arrow = [0x20, 0x2D, 0x2D, 0x3E, 0x20]
   \<and> ((\<exists>e. parseBlock b = Inr (Some e)) \<longleftrightarrow>
        3 \<le> length (split LF b) \<and> timeMatch (split LF b ! 1) \<noteq> None)"
proof (intro conjI)
  show "(\<exists>e. parseBlock b = Inr (Some e)) \<longleftrightarrow>
        3 \<le> length (split LF b) \<and> timeMatch (split LF b ! 1) \<noteq> None"
    by (rule parseBlock_accepts_iff)
next
  show "generateSRT es =
       concat (map (\<lambda>k. (if k = 0 then [] else [0x0A]) @ showNat (k + 1) @ [0x0A] @
                          startTime (es ! k) @ [0x20, 0x2D, 0x2D, 0x3E, 0x20] @
                          endTime (es ! k) @ [0x0A] @ text' (es ! k) @ [0x0A])
                   [0..<length es])"
    by (rule generateSRT_units)
next
  show "LF = 0x0A" by (simp add: LF_def)
next
  show "arrow = [0x20, 0x2D, 0x2D, 0x3E, 0x20]" by (simp add: arrow_def str_def)
next
  show "parseSRT X = Inr es \<and> i < length es \<longrightarrow>
      (\<exists>b line1 pre post.
          b \<in> set (splitBlocks (trim X)) \<and> parseBlock b = Inr (Some (es ! i)) \<and>
          at (split LF b) 1 = Some line1 \<and>
          timeMatch line1 = Some (startTime (es ! i), endTime (es ! i)) \<and>
          line1 = pre @ startTime (es ! i) @ arrow @ endTime (es ! i) @ post)
      \<and> (\<exists>blocks. generateSRT es = join [LF] blocks \<and> length blocks = length es \<and>
            blocks ! i =
              showNat (i + 1) @ [LF] @ startTime (es ! i) @ arrow @ endTime (es ! i) @ [LF] @
              text' (es ! i) @ [LF])
      \<and> (\<exists>pre post.
            generateSRT es =
              pre @ showNat (i + 1) @ [0x0A] @ startTime (es ! i) @
              [0x20, 0x2D, 0x2D, 0x3E, 0x20] @ endTime (es ! i) @ [0x0A] @ text' (es ! i) @
              [0x0A] @ post \<and>
            pre =
              concat (map (\<lambda>k. (if k = 0 then [] else [0x0A]) @ showNat (k + 1) @ [0x0A] @
                                startTime (es ! k) @ [0x20, 0x2D, 0x2D, 0x3E, 0x20] @
                                endTime (es ! k) @ [0x0A] @ text' (es ! k) @ [0x0A])
                          [0..<i]) @ (if i = 0 then [] else [0x0A]))"
  proof
    assume h: "parseSRT X = Inr es \<and> i < length es"
    then have p: "parseSRT X = Inr es" and i: "i < length es" by simp_all
    let ?bs = "splitBlocks (trim X)"
    obtain js where js: "length js = length es"
      "\<forall>k < length es. js ! k < length ?bs \<and> parseBlock (?bs ! (js ! k)) = Inr (Some (es ! k))"
      using parseSRT_positions [OF p] by blast
    define b where "b = ?bs ! (js ! i)"
    have mem: "b \<in> set ?bs" and pb: "parseBlock b = Inr (Some (es ! i))"
      using js(2) i by (simp_all add: b_def)
    have len: "3 \<le> length (split LF b)"
      and tm: "timeMatch (split LF b ! 1) = Some (startTime (es ! i), endTime (es ! i))"
      using parseBlock_Some_timecodes [OF pb] by simp_all
    have at1: "at (split LF b) 1 = Some (split LF b ! 1)"
      using len by (simp add: at_def)
    obtain pre post where
      line: "split LF b ! 1 = pre @ startTime (es ! i) @ arrow @ endTime (es ! i) @ post"
      using timeMatch_Some [OF tm] by blast
    have src: "\<exists>b line1 pre post.
          b \<in> set ?bs \<and> parseBlock b = Inr (Some (es ! i)) \<and>
          at (split LF b) 1 = Some line1 \<and>
          timeMatch line1 = Some (startTime (es ! i), endTime (es ! i)) \<and>
          line1 = pre @ startTime (es ! i) @ arrow @ endTime (es ! i) @ post"
      using mem pb at1 tm line by blast
    have out: "\<exists>blocks. generateSRT es = join [LF] blocks \<and> length blocks = length es \<and>
            blocks ! i =
              showNat (i + 1) @ [LF] @ startTime (es ! i) @ arrow @ endTime (es ! i) @ [LF] @
              text' (es ! i) @ [LF]"
      using generateSRT_blocks [of es] i by blast
    have occ: "\<exists>pre post.
            generateSRT es =
              pre @ showNat (i + 1) @ [0x0A] @ startTime (es ! i) @
              [0x20, 0x2D, 0x2D, 0x3E, 0x20] @ endTime (es ! i) @ [0x0A] @ text' (es ! i) @
              [0x0A] @ post \<and>
            pre =
              concat (map (\<lambda>k. (if k = 0 then [] else [0x0A]) @ showNat (k + 1) @ [0x0A] @
                                startTime (es ! k) @ [0x20, 0x2D, 0x2D, 0x3E, 0x20] @
                                endTime (es ! k) @ [0x0A] @ text' (es ! k) @ [0x0A])
                          [0..<i]) @ (if i = 0 then [] else [0x0A])"
      using i by (rule generateSRT_occurs_units)
    from src out occ show "(\<exists>b line1 pre post.
          b \<in> set ?bs \<and> parseBlock b = Inr (Some (es ! i)) \<and>
          at (split LF b) 1 = Some line1 \<and>
          timeMatch line1 = Some (startTime (es ! i), endTime (es ! i)) \<and>
          line1 = pre @ startTime (es ! i) @ arrow @ endTime (es ! i) @ post)
      \<and> (\<exists>blocks. generateSRT es = join [LF] blocks \<and> length blocks = length es \<and>
            blocks ! i =
              showNat (i + 1) @ [LF] @ startTime (es ! i) @ arrow @ endTime (es ! i) @ [LF] @
              text' (es ! i) @ [LF])
      \<and> (\<exists>pre post.
            generateSRT es =
              pre @ showNat (i + 1) @ [0x0A] @ startTime (es ! i) @
              [0x20, 0x2D, 0x2D, 0x3E, 0x20] @ endTime (es ! i) @ [0x0A] @ text' (es ! i) @
              [0x0A] @ post \<and>
            pre =
              concat (map (\<lambda>k. (if k = 0 then [] else [0x0A]) @ showNat (k + 1) @ [0x0A] @
                                startTime (es ! k) @ [0x20, 0x2D, 0x2D, 0x3E, 0x20] @
                                endTime (es ! k) @ [0x0A] @ text' (es ! k) @ [0x0A])
                          [0..<i]) @ (if i = 0 then [] else [0x0A]))"
      by (intro conjI)
  qed
qed

theorem timecode_preservation_witness:
  "parseSRT (str ''1\<newline>00:00:01,000 --> 00:00:02,000\<newline>Hi\<newline>\<newline>2\<newline>00:00:09,000 --> 00:00:03,000\<newline>Yo'') =
     Inr [\<lparr>index = Num 1, startTime = str ''00:00:01,000'', endTime = str ''00:00:02,000'',
           text' = str ''Hi''\<rparr>,
          \<lparr>index = Num 2, startTime = str ''00:00:09,000'', endTime = str ''00:00:03,000'',
           text' = str ''Yo''\<rparr>]
   \<and> generateSRT
        [\<lparr>index = Num 1, startTime = str ''00:00:01,000'', endTime = str ''00:00:02,000'',
           text' = str ''Hi''\<rparr>,
         \<lparr>index = Num 2, startTime = str ''00:00:09,000'', endTime = str ''00:00:03,000'',
           text' = str ''Yo''\<rparr>] =
       str ''1\<newline>00:00:01,000 --> 00:00:02,000\<newline>Hi\<newline>\<newline>2\<newline>00:00:09,000 --> 00:00:03,000\<newline>Yo\<newline>''
   \<and> (\<exists>line1 pre post.
         timeMatch line1 = Some (str ''00:00:09,000'', str ''00:00:03,000'') \<and>
         line1 = pre @ str ''00:00:09,000'' @ arrow @ str ''00:00:03,000'' @ post)"
proof -
  let ?X = "str ''1\<newline>00:00:01,000 --> 00:00:02,000\<newline>Hi\<newline>\<newline>2\<newline>00:00:09,000 --> 00:00:03,000\<newline>Yo''"
  let ?e1 = "\<lparr>index = Num 1, startTime = str ''00:00:01,000'', endTime = str ''00:00:02,000'',
           text' = str ''Hi''\<rparr>"
  let ?e2 = "\<lparr>index = Num 2, startTime = str ''00:00:09,000'', endTime = str ''00:00:03,000'',
           text' = str ''Yo''\<rparr>"
  have p: "parseSRT ?X = Inr [?e1, ?e2]" by code_simp
  have i: "(1::nat) < length [?e1, ?e2]" by simp
  from p i have hyp: "parseSRT ?X = Inr [?e1, ?e2] \<and> (1::nat) < length [?e1, ?e2]"
    by (rule conjI)
  note concl = timecode_preservation [of ?X "[?e1, ?e2]" 1, THEN conjunct1, THEN mp, OF hyp]
  have units: "generateSRT [?e1, ?e2] =
       concat (map (\<lambda>k. (if k = 0 then [] else [0x0A]) @ showNat (k + 1) @ [0x0A] @
                          startTime ([?e1, ?e2] ! k) @ [0x20, 0x2D, 0x2D, 0x3E, 0x20] @
                          endTime ([?e1, ?e2] ! k) @ [0x0A] @ text' ([?e1, ?e2] ! k) @ [0x0A])
                   [0..<length [?e1, ?e2]])"
    by (rule timecode_preservation [of ?X "[?e1, ?e2]" 1, THEN conjunct2, THEN conjunct1])
  have "concat (map (\<lambda>k. (if k = 0 then [] else [0x0A]) @ showNat (k + 1) @ [0x0A] @
                          startTime ([?e1, ?e2] ! k) @ [0x20, 0x2D, 0x2D, 0x3E, 0x20] @
                          endTime ([?e1, ?e2] ! k) @ [0x0A] @ text' ([?e1, ?e2] ! k) @ [0x0A])
                   [0..<length [?e1, ?e2]]) =
     str ''1\<newline>00:00:01,000 --> 00:00:02,000\<newline>Hi\<newline>\<newline>2\<newline>00:00:09,000 --> 00:00:03,000\<newline>Yo\<newline>''"
    by code_simp
  with units have g: "generateSRT [?e1, ?e2] =
     str ''1\<newline>00:00:01,000 --> 00:00:02,000\<newline>Hi\<newline>\<newline>2\<newline>00:00:09,000 --> 00:00:03,000\<newline>Yo\<newline>''"
    by (rule trans)
  have "\<exists>b line1 pre post.
          b \<in> set (splitBlocks (trim ?X)) \<and> parseBlock b = Inr (Some ([?e1, ?e2] ! 1)) \<and>
          at (split LF b) 1 = Some line1 \<and>
          timeMatch line1 = Some (startTime ([?e1, ?e2] ! 1), endTime ([?e1, ?e2] ! 1)) \<and>
          line1 = pre @ startTime ([?e1, ?e2] ! 1) @ arrow @ endTime ([?e1, ?e2] ! 1) @ post"
    using concl by (rule conjunct1)
  then have m: "\<exists>line1 pre post.
         timeMatch line1 = Some (str ''00:00:09,000'', str ''00:00:03,000'') \<and>
         line1 = pre @ str ''00:00:09,000'' @ arrow @ str ''00:00:03,000'' @ post"
    by (simp only: nth_Cons_0 nth_Cons_Suc One_nat_def SRTEntry.simps) blast
  show ?thesis by (rule conjI [OF p conjI [OF g m]])
qed

section \<open>The index field\<close>

lemma renderEntry_index: "renderEntry (e\<lparr>index := n\<rparr>) i = renderEntry e i"
  by (simp add: renderEntry_def)

lemma mapIndexed_cong_fields:
  "length xs = length ys \<Longrightarrow> (\<forall>k < length xs. \<forall>i. f (xs ! k) i = f (ys ! k) i) \<Longrightarrow>
     mapIndexed f i xs = mapIndexed f i ys"
  by (rule nth_equalityI) (simp_all add: length_mapIndexed nth_mapIndexed)

lemma generateSRT_ignores_index:
  "generateSRT (map (\<lambda>e. e\<lparr>index := f e\<rparr>) E) = generateSRT E"
  unfolding generateSRT_def
  by (rule arg_cong [where f = "join [LF]"], rule mapIndexed_cong_fields)
     (simp_all add: renderEntry_index)

lemma generateSRT_fields:
  assumes "map startTime E = map startTime E'" "map endTime E = map endTime E'"
    "map text' E = map text' E'"
  shows "generateSRT E = generateSRT E'"
proof -
  have len: "length E = length E'" using assms(1) by (rule map_eq_imp_length_eq)
  have "renderEntry (E ! k) i = renderEntry (E' ! k) i" if "k < length E" for k i
  proof -
    have "map startTime E ! k = map startTime E' ! k" "map endTime E ! k = map endTime E' ! k"
      "map text' E ! k = map text' E' ! k" using assms by simp_all
    then show ?thesis using that len by (simp add: renderEntry_def)
  qed
  then show ?thesis unfolding generateSRT_def using len
    by (intro arg_cong [where f = "join [LF]"] mapIndexed_cong_fields) simp_all
qed

text \<open>
  C9 (the unguarded index parse is total and inert). \<open>parseSRT\<close> and \<open>parseBlock\<close> never
  throw. A block of at least three lines whose second line matches and whose trimmed first
  line does not begin with a decimal integer still pushes an entry, and its index is
  \<open>NaN\<close>. The output of \<open>generateSRT\<close> does not change when the index fields are replaced, and
  is the same for two lists with the same start times, end times and texts.
\<close>

theorem index_parse_total_inert:
  "(\<exists>es. parseSRT X = Inr es)
   \<and> (\<exists>r. parseBlock b = Inr r)
   \<and> (3 \<le> length (split LF b) \<and> timeMatch (split LF b ! 1) \<noteq> None \<and>
        \<not> beginsWithDecimal (trim (split LF b ! 0))
        \<longrightarrow> (\<exists>e. parseBlock b = Inr (Some e) \<and> index e = NaN))
   \<and> generateSRT (map (\<lambda>e. e\<lparr>index := f e\<rparr>) E) = generateSRT E
   \<and> (map startTime E = map startTime E' \<and> map endTime E = map endTime E' \<and>
        map text' E = map text' E' \<longrightarrow> generateSRT E = generateSRT E')"
proof -
  have 1: "\<exists>es. parseSRT X = Inr es"
    using parseSRT_entries by blast
  have 2: "\<exists>r. parseBlock b = Inr r"
    using parseBlock_Inr by blast
  have 3: "3 \<le> length (split LF b) \<and> timeMatch (split LF b ! 1) \<noteq> None \<and>
        \<not> beginsWithDecimal (trim (split LF b ! 0))
        \<longrightarrow> (\<exists>e. parseBlock b = Inr (Some e) \<and> index e = NaN)"
  proof
    assume a: "3 \<le> length (split LF b) \<and> timeMatch (split LF b ! 1) \<noteq> None \<and>
        \<not> beginsWithDecimal (trim (split LF b ! 0))"
    let ?l = "trim (split LF b ! 0)"
    have "trimStart ?l = ?l"
    proof (cases "?l = []")
      case True
      then show ?thesis by (simp add: trimStart_def)
    next
      case False
      then have "\<not> isWhiteSpace (hd ?l)" by (rule trim_ends)
      then show ?thesis using False by (cases ?l) (simp_all add: trimStart_def)
    qed
    then have nan: "parseInt ?l = NaN" using a by (simp add: parseInt_NaN)
    from a obtain s z where "timeMatch (split LF b ! 1) = Some (s, z)" by auto
    then show "\<exists>e. parseBlock b = Inr (Some e) \<and> index e = NaN"
      using a nan by (simp add: parseBlock_cases)
  qed
  have 4: "generateSRT (map (\<lambda>e. e\<lparr>index := f e\<rparr>) E) = generateSRT E"
    by (rule generateSRT_ignores_index)
  have 5: "map startTime E = map startTime E' \<and> map endTime E = map endTime E' \<and>
        map text' E = map text' E' \<longrightarrow> generateSRT E = generateSRT E'"
    using generateSRT_fields by blast
  from 1 2 3 4 5 show ?thesis by (intro conjI)
qed

theorem index_parse_total_inert_witness:
  "parseSRT (str ''abc\<newline>00:00:01,000 --> 00:00:02,000\<newline>Hi'') =
     Inr [\<lparr>index = NaN, startTime = str ''00:00:01,000'', endTime = str ''00:00:02,000'',
           text' = str ''Hi''\<rparr>]
   \<and> (\<exists>e. parseBlock (str ''abc\<newline>00:00:01,000 --> 00:00:02,000\<newline>Hi'') = Inr (Some e) \<and>
          index e = NaN)
   \<and> generateSRT [\<lparr>index = NaN, startTime = str ''00:00:01,000'',
                   endTime = str ''00:00:02,000'', text' = str ''Hi''\<rparr>] =
      generateSRT [\<lparr>index = Num 7, startTime = str ''00:00:01,000'',
                   endTime = str ''00:00:02,000'', text' = str ''Hi''\<rparr>]"
proof -
  let ?b = "str ''abc\<newline>00:00:01,000 --> 00:00:02,000\<newline>Hi''"
  have h: "3 \<le> length (split LF ?b) \<and> timeMatch (split LF ?b ! 1) \<noteq> None \<and>
        \<not> beginsWithDecimal (trim (split LF ?b ! 0))"
    by code_simp
  have 1: "parseSRT ?b =
     Inr [\<lparr>index = NaN, startTime = str ''00:00:01,000'', endTime = str ''00:00:02,000'',
           text' = str ''Hi''\<rparr>]"
    by code_simp
  have 2: "\<exists>e. parseBlock ?b = Inr (Some e) \<and> index e = NaN"
    using index_parse_total_inert [of ?b] h by blast
  have 3: "generateSRT [\<lparr>index = NaN, startTime = str ''00:00:01,000'',
                   endTime = str ''00:00:02,000'', text' = str ''Hi''\<rparr>] =
      generateSRT [\<lparr>index = Num 7, startTime = str ''00:00:01,000'',
                   endTime = str ''00:00:02,000'', text' = str ''Hi''\<rparr>]"
    by (simp add: generateSRT_def renderEntry_def)
  show ?thesis by (rule conjI [OF 1 conjI [OF 2 3]])
qed

section \<open>Substring match\<close>






section \<open>Promises\<close>

lemma those_map_Some: "those (map Some xs) = Some xs"
  by (induction xs) simp_all

lemma length_settleEvents: "length (settleEvents ps) = length ps"
  by (simp add: settleEvents_def)

lemma set_settleEvents:
  "set (settleEvents ps) = {(i, snd (ps ! i)) | i. i < length ps}"
proof -
  have "set (settleEvents ps) = (\<lambda>(i, p). (i, snd p)) ` set (zip [0..<length ps] ps)"
    by (simp add: settleEvents_def)
  also have "set (zip [0..<length ps] ps) = {(i, ps ! i) | i. i < length ps}"
    by (force simp: set_zip)
  also have "(\<lambda>(i, p). (i, snd p)) ` {(i, ps ! i) | i. i < length ps} =
      {(i, snd (ps ! i)) | i. i < length ps}"
    by (auto simp: image_iff)
  finally show ?thesis .
qed

lemma distinct_settleEvents: "distinct (map fst (settleEvents ps))"
proof -
  have "fst ` set (settleEvents ps) = {0..<length ps}"
    by (auto simp: set_settleEvents image_iff)
  then have "card (set (map fst (settleEvents ps))) = length (map fst (settleEvents ps))"
    by (simp add: length_settleEvents)
  then show ?thesis by (rule card_distinct)
qed

lemma length_fold_store: "length (fold store events vs) = length vs"
proof (induction events arbitrary: vs)
  case Nil
  then show ?case by simp
next
  case (Cons ev events)
  obtain i r where ev: "ev = (i, r)" by (cases ev)
  show ?case using Cons ev by (cases r) simp_all
qed

lemma fold_store_untouched:
  "i \<notin> fst ` set events \<Longrightarrow> fold store events vs ! i = vs ! i"
proof (induction events arbitrary: vs)
  case Nil
  then show ?case by simp
next
  case (Cons ev events)
  obtain j r where ev: "ev = (j, r)" by (cases ev)
  then have "j \<noteq> i" and "i \<notin> fst ` set events" using Cons.prems by auto
  then show ?case using Cons.IH ev by (cases r) simp_all
qed

lemma fold_store_nth:
  "distinct (map fst events) \<Longrightarrow> (i, Inr v) \<in> set events \<Longrightarrow> i < length vs \<Longrightarrow>
     fold store events vs ! i = Some v"
proof (induction events arbitrary: vs)
  case Nil
  then show ?case by simp
next
  case (Cons ev events)
  obtain j r where ev: "ev = (j, r)" by (cases ev)
  show ?case
  proof (cases "(i, Inr v) = ev")
    case True
    then have "fst ev = i" by auto
    moreover have "fst ev \<notin> set (map fst events)" using Cons.prems(1) by simp
    ultimately have "i \<notin> fst ` set events" by simp
    then have "fold store events (store ev vs) ! i = store ev vs ! i"
      by (rule fold_store_untouched)
    then show ?thesis using True Cons.prems(3) by auto
  next
    case False
    have "distinct (map fst events)" using Cons.prems(1) by simp
    moreover have "(i, Inr v) \<in> set events" using False Cons.prems(2) by auto
    moreover have "i < length (store ev vs)" using Cons.prems(3) ev by (cases r) simp_all
    ultimately have "fold store events (store ev vs) ! i = Some v" by (rule Cons.IH)
    then show ?thesis by simp
  qed
qed

lemma promiseAllRun_fulfilled:
  "\<forall>ev \<in> set events. \<exists>v. snd ev = Inr v \<Longrightarrow> events \<noteq> [] \<Longrightarrow> remaining = length events \<Longrightarrow>
     promiseAllRun events vs remaining = Some (Inr (fold store events vs))"
proof (induction events arbitrary: vs remaining)
  case Nil
  then show ?case by simp
next
  case (Cons ev events)
  obtain i v where ev: "ev = (i, Inr v)" using Cons.prems(1) by (cases ev) auto
  show ?case
  proof (cases "events = []")
    case True
    then show ?thesis using Cons.prems ev by simp
  next
    case False
    then have "remaining \<noteq> 1" and "remaining - 1 = length events"
      using Cons.prems(3) by (cases events, simp_all)
    moreover have "promiseAllRun events (vs[i := Some v]) (remaining - 1) =
        Some (Inr (fold store events (vs[i := Some v])))"
      using Cons.prems(1) False \<open>remaining - 1 = length events\<close> by (intro Cons.IH) simp_all
    ultimately show ?thesis using ev by simp
  qed
qed

lemma promiseAllRun_rejected:
  "\<exists>ev \<in> set events. \<exists>e. snd ev = Inl e \<Longrightarrow> length events \<le> remaining \<Longrightarrow>
     \<exists>ev \<in> set events. \<exists>e. snd ev = Inl e \<and> promiseAllRun events vs remaining = Some (Inl e)"
proof (induction events arbitrary: vs remaining)
  case Nil
  then show ?case by simp
next
  case (Cons ev events)
  obtain i r where ev: "ev = (i, r)" by (cases ev)
  show ?case
  proof (cases r)
    case (Inl e)
    then show ?thesis using ev by auto
  next
    case (Inr v)
    then have ex: "\<exists>ev \<in> set events. \<exists>e. snd ev = Inl e" using Cons.prems(1) ev by auto
    then have "events \<noteq> []" by auto
    then have "remaining \<noteq> 1" and le: "length events \<le> remaining - 1"
      using Cons.prems(2) by (cases events, simp_all)
    moreover have "\<exists>ev \<in> set events. \<exists>e. snd ev = Inl e \<and>
        promiseAllRun events (vs[i := Some v]) (remaining - 1) = Some (Inl e)"
      using ex le by (rule Cons.IH)
    ultimately show ?thesis using ev Inr by auto
  qed
qed

lemma promiseAll_fulfilled:
  assumes "map snd ps = map Inr vs"
  shows "promiseAll ps = Some (Inr vs)"
proof (cases "ps = []")
  case True
  then show ?thesis using assms by (simp add: promiseAll_def)
next
  case False
  have len: "length vs = length ps"
    using assms by (metis length_map)
  have nth: "snd (ps ! i) = Inr (vs ! i)" if "i < length ps" for i
  proof -
    have "map snd ps ! i = map Inr vs ! i" using assms by simp
    then show ?thesis using that len by simp
  qed
  have all: "\<forall>ev \<in> set (settleEvents ps). \<exists>v. snd ev = Inr v"
    using nth by (auto simp: set_settleEvents)
  have ne: "settleEvents ps \<noteq> []"
    using False length_settleEvents [of ps] by (metis length_0_conv)
  have run: "promiseAllRun (settleEvents ps) (replicate (length ps) None) (length ps) =
      Some (Inr (fold store (settleEvents ps) (replicate (length ps) None)))"
    using all ne by (rule promiseAllRun_fulfilled) (simp add: length_settleEvents)
  have "fold store (settleEvents ps) (replicate (length ps) None) = map Some vs"
  proof (rule nth_equalityI)
    show "length (fold store (settleEvents ps) (replicate (length ps) None)) = length (map Some vs)"
      by (simp add: length_fold_store len)
  next
    fix i assume "i < length (fold store (settleEvents ps) (replicate (length ps) None))"
    then have i: "i < length ps" by (simp add: length_fold_store)
    then have "(i, Inr (vs ! i)) \<in> set (settleEvents ps)"
      using nth by (auto simp: set_settleEvents)
    then have "fold store (settleEvents ps) (replicate (length ps) None) ! i = Some (vs ! i)"
      using distinct_settleEvents i by (intro fold_store_nth) simp_all
    then show "fold store (settleEvents ps) (replicate (length ps) None) ! i = map Some vs ! i"
      using i len by simp
  qed
  then show ?thesis using False run by (simp add: promiseAll_def those_map_Some)
qed

lemma promiseAll_rejected:
  assumes "\<exists>p \<in> set ps. \<exists>e. snd p = Inl e"
  shows "\<exists>p \<in> set ps. \<exists>e. snd p = Inl e \<and> promiseAll ps = Some (Inl e)"
proof -
  from assms obtain p e where p: "p \<in> set ps" "snd p = Inl e" by blast
  then obtain i where i: "i < length ps" "ps ! i = p" by (auto simp: in_set_conv_nth)
  then have "(i, Inl e) \<in> set (settleEvents ps)" using p by (auto simp: set_settleEvents)
  then have "\<exists>ev \<in> set (settleEvents ps). \<exists>e. snd ev = Inl e" by force
  then have "\<exists>ev \<in> set (settleEvents ps). \<exists>e. snd ev = Inl e \<and>
      promiseAllRun (settleEvents ps) (replicate (length ps) None) (length ps) = Some (Inl e)"
    by (rule promiseAllRun_rejected) (simp add: length_settleEvents)
  then obtain ev e' where ev: "ev \<in> set (settleEvents ps)" "snd ev = Inl e'"
    "promiseAllRun (settleEvents ps) (replicate (length ps) None) (length ps) = Some (Inl e')"
    by blast
  then obtain j where "j < length ps" "snd (ps ! j) = Inl e'"
    by (auto simp: set_settleEvents)
  then have "ps ! j \<in> set ps \<and> snd (ps ! j) = Inl e'" by simp
  moreover have "promiseAll ps = Some (Inl e')"
    using ev(3) p(1) by (auto simp: promiseAll_def)
  ultimately show ?thesis by blast
qed

lemma map_snd_mapIndexed: "map snd (mapIndexed (\<lambda>x i. (d i, h x)) i xs) = map h xs"
  by (induction xs arbitrary: i) simp_all

lemma outcomes_translateEntries:
  "map snd (translateEntries tr delay language entries) =
     map (\<lambda>entry. case tr (text' entry) language of
                     Inl e \<Rightarrow> Inl e
                   | Inr t \<Rightarrow> Inr (entry\<lparr>text' := t\<rparr>)) entries"
  unfolding translateEntries_def by (rule map_snd_mapIndexed)

lemma translateEntries_fulfilled:
  assumes "\<forall>e \<in> set entries. tr (text' e) language = Inr (g (text' e))"
  shows "promiseAll (translateEntries tr delay language entries) =
           Some (Inr (map (\<lambda>e. e\<lparr>text' := g (text' e)\<rparr>) entries))"
proof (rule promiseAll_fulfilled)
  show "map snd (translateEntries tr delay language entries) =
          map Inr (map (\<lambda>e. e\<lparr>text' := g (text' e)\<rparr>) entries)"
    using assms by (simp add: outcomes_translateEntries)
qed

lemma translateEntries_rejected:
  assumes "\<exists>e \<in> set entries. \<exists>err. tr (text' e) language = Inl err"
  shows "\<exists>e \<in> set entries. \<exists>err. tr (text' e) language = Inl err \<and>
           promiseAll (translateEntries tr delay language entries) = Some (Inl err)"
proof -
  define out :: "SRTEntry \<Rightarrow> error + SRTEntry" where
    "out = (\<lambda>entry. case tr (text' entry) language of
                     Inl e \<Rightarrow> Inl e
                   | Inr t \<Rightarrow> Inr (entry\<lparr>text' := t\<rparr>))"
  define ps where "ps = translateEntries tr delay language entries"
  have outs: "map snd ps = map out entries"
    unfolding ps_def out_def by (rule outcomes_translateEntries)
  then have len: "length ps = length entries"
    by (rule map_eq_imp_length_eq)
  have nth: "snd (ps ! k) = out (entries ! k)" if "k < length entries" for k
  proof -
    have "map snd ps ! k = map out entries ! k" using outs by simp
    then show ?thesis using that len by simp
  qed
  from assms obtain e err where e: "e \<in> set entries" "tr (text' e) language = Inl err"
    by blast
  then obtain k where k: "k < length entries" "entries ! k = e"
    by (auto simp: in_set_conv_nth)
  have "out e = Inl err" using e(2) by (simp add: out_def)
  moreover have "snd (ps ! k) = out (entries ! k)" using k(1) by (rule nth)
  ultimately have "snd (ps ! k) = Inl err" using k(2) by simp
  moreover have "ps ! k \<in> set ps" using k(1) len by simp
  ultimately have "\<exists>p \<in> set ps. \<exists>e. snd p = Inl e" by blast
  then have "\<exists>p \<in> set ps. \<exists>e. snd p = Inl e \<and> promiseAll ps = Some (Inl e)"
    by (rule promiseAll_rejected)
  then obtain p err' where p: "p \<in> set ps" "snd p = Inl err'" "promiseAll ps = Some (Inl err')"
    by blast
  then obtain j where j: "j < length entries" "ps ! j = p"
    using len by (auto simp: in_set_conv_nth)
  have "snd (ps ! j) = out (entries ! j)" using j(1) by (rule nth)
  then have "out (entries ! j) = Inl err'" using j(2) p(2) by simp
  then have "tr (text' (entries ! j)) language = Inl err'"
    unfolding out_def by (cases "tr (text' (entries ! j)) language") simp_all
  moreover have "entries ! j \<in> set entries" using j(1) by simp
  ultimately show ?thesis using p(3) unfolding ps_def by blast
qed

section \<open>The translate operation\<close>

text \<open>
  C7 (all-or-nothing join). When a file and a language are selected, the file is read and
  parsed, and the translation of one entry is rejected, \<open>handleTranslate\<close> returns with the
  translated result as it was before the call: \<open>Promise.all\<close> is rejected with the reason
  of one of the rejected entries, whatever the other entries gave and whenever they
  settled; one error toast with the fixed message is shown, the reason is logged, and
  \<open>isTranslating\<close> is reset.
\<close>

theorem translation_all_or_nothing:
  "file' st = Some f \<and> selectedLanguage st \<noteq> [] \<and> fileText f = Inr content \<and>
   parseSRT content = Inr entries \<and>
   (\<exists>e \<in> set entries. \<exists>err. tr (text' e) (selectedLanguage st) = Inl err)
   \<longrightarrow> (\<exists>st' err.
          handleTranslateWith tr delay st = Some st' \<and>
          (\<exists>e \<in> set entries. tr (text' e) (selectedLanguage st) = Inl err) \<and>
          promiseAll (translateEntries tr delay (selectedLanguage st) entries) = Some (Inl err) \<and>
          translatedSRT st' = translatedSRT st \<and>
          toasts st' = toasts st @ [ToastError msgTranslationError] \<and>
          consoleErrors st' = consoleErrors st @ [err] \<and>
          isTranslating st' = False)"
proof
  assume h: "file' st = Some f \<and> selectedLanguage st \<noteq> [] \<and> fileText f = Inr content \<and>
   parseSRT content = Inr entries \<and>
   (\<exists>e \<in> set entries. \<exists>err. tr (text' e) (selectedLanguage st) = Inl err)"
  then have "\<exists>e \<in> set entries. \<exists>err. tr (text' e) (selectedLanguage st) = Inl err" by simp
  then obtain e err where e: "e \<in> set entries" "tr (text' e) (selectedLanguage st) = Inl err"
    and pa: "promiseAll (translateEntries tr delay (selectedLanguage st) entries) = Some (Inl err)"
    using translateEntries_rejected [of entries tr "selectedLanguage st" delay] by blast
  define st2 where "st2 = st\<lparr>isTranslating := True, originalEntries := entries\<rparr>"
  define st' where "st' = (catchError st2 err)\<lparr>isTranslating := False\<rparr>"
  have run: "handleTranslateWith tr delay st = Some st'"
    using h pa by (simp add: handleTranslateWith_def Let_def st'_def st2_def)
  have "translatedSRT st' = translatedSRT st"
    "toasts st' = toasts st @ [ToastError msgTranslationError]"
    "consoleErrors st' = consoleErrors st @ [err]" "isTranslating st' = False"
    by (simp_all add: st'_def st2_def catchError_def)
  then show "\<exists>st' err.
          handleTranslateWith tr delay st = Some st' \<and>
          (\<exists>e \<in> set entries. tr (text' e) (selectedLanguage st) = Inl err) \<and>
          promiseAll (translateEntries tr delay (selectedLanguage st) entries) = Some (Inl err) \<and>
          translatedSRT st' = translatedSRT st \<and>
          toasts st' = toasts st @ [ToastError msgTranslationError] \<and>
          consoleErrors st' = consoleErrors st @ [err] \<and>
          isTranslating st' = False"
    using run e pa by blast
qed

theorem translation_all_or_nothing_witness:
  "\<exists>st'. handleTranslateWith
            (\<lambda>t l. if t = str ''B'' then Inl (Rejected (str ''boom'')) else translateText t l)
            (\<lambda>i. translateDelay)
            \<lparr>selectedLanguage = str ''french'',
             file' = Some \<lparr>fileName = str ''a.srt'',
                           fileText = Inr (str ''1\<newline>00:00:01,000 --> 00:00:02,000\<newline>A\<newline>\<newline>2\<newline>00:00:03,000 --> 00:00:04,000\<newline>B'')\<rparr>,
             translatedSRT = str ''old'', isTranslating = False, originalEntries = [],
             toasts = [], consoleErrors = []\<rparr> = Some st' \<and>
          translatedSRT st' = str ''old'' \<and>
          toasts st' = [ToastError msgTranslationError] \<and>
          isTranslating st' = False"
proof -
  let ?tr = "\<lambda>t l. if t = str ''B'' then Inl (Rejected (str ''boom'')) else translateText t l"
  let ?content = "str ''1\<newline>00:00:01,000 --> 00:00:02,000\<newline>A\<newline>\<newline>2\<newline>00:00:03,000 --> 00:00:04,000\<newline>B''"
  let ?f = "\<lparr>fileName = str ''a.srt'', fileText = Inr ?content\<rparr>"
  let ?st = "\<lparr>selectedLanguage = str ''french'', file' = Some ?f,
             translatedSRT = str ''old'', isTranslating = False, originalEntries = [],
             toasts = [], consoleErrors = []\<rparr>"
  let ?a = "\<lparr>index = Num 1, startTime = str ''00:00:01,000'', endTime = str ''00:00:02,000'',
             text' = str ''A''\<rparr>"
  let ?b = "\<lparr>index = Num 2, startTime = str ''00:00:03,000'', endTime = str ''00:00:04,000'',
             text' = str ''B''\<rparr>"
  have 1: "file' ?st = Some ?f" by simp
  have 2: "selectedLanguage ?st \<noteq> []" by (simp add: str_def)
  have 3: "fileText ?f = Inr ?content" by simp
  have 4: "parseSRT ?content = Inr [?a, ?b]" by code_simp
  have "?tr (text' ?b) (selectedLanguage ?st) = Inl (Rejected (str ''boom''))" by simp
  then have 5: "\<exists>e \<in> set [?a, ?b]. \<exists>err. ?tr (text' e) (selectedLanguage ?st) = Inl err"
    by (intro bexI [of _ ?b] exI) simp_all
  from 1 2 3 4 5 have hyp:
    "file' ?st = Some ?f \<and> selectedLanguage ?st \<noteq> [] \<and> fileText ?f = Inr ?content \<and>
     parseSRT ?content = Inr [?a, ?b] \<and>
     (\<exists>e \<in> set [?a, ?b]. \<exists>err. ?tr (text' e) (selectedLanguage ?st) = Inl err)"
    by (intro conjI)
  note concl =
    translation_all_or_nothing [of ?st ?f ?content "[?a, ?b]" ?tr "\<lambda>i. translateDelay",
      THEN mp, OF hyp]
  from concl obtain st' where "\<exists>err.
          handleTranslateWith ?tr (\<lambda>i. translateDelay) ?st = Some st' \<and>
          (\<exists>e \<in> set [?a, ?b]. ?tr (text' e) (selectedLanguage ?st) = Inl err) \<and>
          promiseAll (translateEntries ?tr (\<lambda>i. translateDelay) (selectedLanguage ?st) [?a, ?b]) =
            Some (Inl err) \<and>
          translatedSRT st' = translatedSRT ?st \<and>
          toasts st' = toasts ?st @ [ToastError msgTranslationError] \<and>
          consoleErrors st' = consoleErrors ?st @ [err] \<and>
          isTranslating st' = False" ..
  then obtain err where c:
         "handleTranslateWith ?tr (\<lambda>i. translateDelay) ?st = Some st' \<and>
          (\<exists>e \<in> set [?a, ?b]. ?tr (text' e) (selectedLanguage ?st) = Inl err) \<and>
          promiseAll (translateEntries ?tr (\<lambda>i. translateDelay) (selectedLanguage ?st) [?a, ?b]) =
            Some (Inl err) \<and>
          translatedSRT st' = translatedSRT ?st \<and>
          toasts st' = toasts ?st @ [ToastError msgTranslationError] \<and>
          consoleErrors st' = consoleErrors ?st @ [err] \<and>
          isTranslating st' = False" ..
  have r: "handleTranslateWith ?tr (\<lambda>i. translateDelay) ?st = Some st'"
    using c by (rule conjunct1)
  have t: "translatedSRT st' = translatedSRT ?st"
    using c by (elim conjE)
  have o: "toasts st' = toasts ?st @ [ToastError msgTranslationError]"
    using c by (elim conjE)
  have n: "isTranslating st' = False"
    using c by (elim conjE)
  have t': "translatedSRT st' = str ''old''"
    using t by (simp only: ui_state.select_convs)
  have o': "toasts st' = [ToastError msgTranslationError]"
    using o by (simp only: ui_state.select_convs append_Nil)
  have "handleTranslateWith ?tr (\<lambda>i. translateDelay) ?st = Some st' \<and>
    translatedSRT st' = str ''old'' \<and> toasts st' = [ToastError msgTranslationError] \<and>
    isTranslating st' = False"
    using r t' o' n by (intro conjI)
  then show ?thesis by (rule exI [where x = st'])
qed

text \<open>
  C8 (order preservation under concurrent translation). When the translator fulfils every
  entry, then for every assignment \<open>delay\<close> of settling times to the calls \<open>Promise.all\<close> is
  fulfilled with the translated entries in the order of the entries, and the text that
  \<open>handleTranslate\<close> stores is the sequence of the blocks of the entries in that order, each
  with its own times and its translated text, written here by code units; for three
  entries \<open>A\<close>, \<open>B\<close>, \<open>C\<close> it is the block of \<open>A\<close> numbered 1, then that of \<open>B\<close> numbered 2,
  then that of \<open>C\<close> numbered 3.
\<close>

theorem translation_order_preserved:
  "(\<forall>e \<in> set entries. tr (text' e) language = Inr (g (text' e)))
   \<longrightarrow> promiseAll (translateEntries tr delay language entries) =
         Some (Inr (map (\<lambda>e. e\<lparr>text' := g (text' e)\<rparr>) entries))
       \<and> (file' st = Some f \<and> selectedLanguage st = language \<and> language \<noteq> [] \<and>
           fileText f = Inr content \<and> parseSRT content = Inr entries
           \<longrightarrow> (\<exists>st'. handleTranslateWith tr delay st = Some st' \<and>
                  translatedSRT st' =
                    generateSRT (map (\<lambda>e. e\<lparr>text' := g (text' e)\<rparr>) entries) \<and>
                  toasts st' = toasts st @ [ToastSuccess msgTranslationDone] \<and>
                  isTranslating st' = False \<and>
                  translatedSRT st' =
                    concat (map (\<lambda>k. (if k = 0 then [] else [0x0A]) @ showNat (k + 1) @
                                      [0x0A] @ startTime (entries ! k) @
                                      [0x20, 0x2D, 0x2D, 0x3E, 0x20] @ endTime (entries ! k) @
                                      [0x0A] @ g (text' (entries ! k)) @ [0x0A])
                                [0..<length entries]) \<and>
                  (entries = [A, B, C] \<longrightarrow>
                     translatedSRT st' =
                       [0x31, 0x0A] @ startTime A @ [0x20, 0x2D, 0x2D, 0x3E, 0x20] @ endTime A @
                       [0x0A] @ g (text' A) @ [0x0A, 0x0A, 0x32, 0x0A] @ startTime B @
                       [0x20, 0x2D, 0x2D, 0x3E, 0x20] @ endTime B @ [0x0A] @ g (text' B) @
                       [0x0A, 0x0A, 0x33, 0x0A] @ startTime C @
                       [0x20, 0x2D, 0x2D, 0x3E, 0x20] @ endTime C @ [0x0A] @ g (text' C) @
                       [0x0A])))"
proof
  assume h: "\<forall>e \<in> set entries. tr (text' e) language = Inr (g (text' e))"
  then have pa: "promiseAll (translateEntries tr delay language entries) =
         Some (Inr (map (\<lambda>e. e\<lparr>text' := g (text' e)\<rparr>) entries))"
    by (rule translateEntries_fulfilled)
  let ?out = "generateSRT (map (\<lambda>e. e\<lparr>text' := g (text' e)\<rparr>) entries)"
  have units: "?out =
      concat (map (\<lambda>k. (if k = 0 then [] else [0x0A]) @ showNat (k + 1) @
                                      [0x0A] @ startTime (entries ! k) @
                                      [0x20, 0x2D, 0x2D, 0x3E, 0x20] @ endTime (entries ! k) @
                                      [0x0A] @ g (text' (entries ! k)) @ [0x0A])
                                [0..<length entries])"
    by (rule generateSRT_translated_units)
  have three: "entries = [A, B, C] \<longrightarrow>
      ?out = [0x31, 0x0A] @ startTime A @ [0x20, 0x2D, 0x2D, 0x3E, 0x20] @ endTime A @
                       [0x0A] @ g (text' A) @ [0x0A, 0x0A, 0x32, 0x0A] @ startTime B @
                       [0x20, 0x2D, 0x2D, 0x3E, 0x20] @ endTime B @ [0x0A] @ g (text' B) @
                       [0x0A, 0x0A, 0x33, 0x0A] @ startTime C @
                       [0x20, 0x2D, 0x2D, 0x3E, 0x20] @ endTime C @ [0x0A] @ g (text' C) @
                       [0x0A]"
  proof
    assume "entries = [A, B, C]"
    then show "?out = [0x31, 0x0A] @ startTime A @ [0x20, 0x2D, 0x2D, 0x3E, 0x20] @ endTime A @
                       [0x0A] @ g (text' A) @ [0x0A, 0x0A, 0x32, 0x0A] @ startTime B @
                       [0x20, 0x2D, 0x2D, 0x3E, 0x20] @ endTime B @ [0x0A] @ g (text' B) @
                       [0x0A, 0x0A, 0x33, 0x0A] @ startTime C @
                       [0x20, 0x2D, 0x2D, 0x3E, 0x20] @ endTime C @ [0x0A] @ g (text' C) @
                       [0x0A]"
      using generateSRT_three [of "A\<lparr>text' := g (text' A)\<rparr>" "B\<lparr>text' := g (text' B)\<rparr>"
          "C\<lparr>text' := g (text' C)\<rparr>"]
      by simp
  qed
  have run: "\<exists>st'. handleTranslateWith tr delay st = Some st' \<and>
                  translatedSRT st' = ?out \<and>
                  toasts st' = toasts st @ [ToastSuccess msgTranslationDone] \<and>
                  isTranslating st' = False"
    if a: "file' st = Some f \<and> selectedLanguage st = language \<and> language \<noteq> [] \<and>
           fileText f = Inr content \<and> parseSRT content = Inr entries"
    using a pa by (simp add: handleTranslateWith_def Let_def)
  have full: "\<exists>st'. handleTranslateWith tr delay st = Some st' \<and>
                  translatedSRT st' = ?out \<and>
                  toasts st' = toasts st @ [ToastSuccess msgTranslationDone] \<and>
                  isTranslating st' = False \<and>
                  translatedSRT st' =
                    concat (map (\<lambda>k. (if k = 0 then [] else [0x0A]) @ showNat (k + 1) @
                                      [0x0A] @ startTime (entries ! k) @
                                      [0x20, 0x2D, 0x2D, 0x3E, 0x20] @ endTime (entries ! k) @
                                      [0x0A] @ g (text' (entries ! k)) @ [0x0A])
                                [0..<length entries]) \<and>
                  (entries = [A, B, C] \<longrightarrow>
                     translatedSRT st' =
                       [0x31, 0x0A] @ startTime A @ [0x20, 0x2D, 0x2D, 0x3E, 0x20] @ endTime A @
                       [0x0A] @ g (text' A) @ [0x0A, 0x0A, 0x32, 0x0A] @ startTime B @
                       [0x20, 0x2D, 0x2D, 0x3E, 0x20] @ endTime B @ [0x0A] @ g (text' B) @
                       [0x0A, 0x0A, 0x33, 0x0A] @ startTime C @
                       [0x20, 0x2D, 0x2D, 0x3E, 0x20] @ endTime C @ [0x0A] @ g (text' C) @
                       [0x0A])"
    if a: "file' st = Some f \<and> selectedLanguage st = language \<and> language \<noteq> [] \<and>
           fileText f = Inr content \<and> parseSRT content = Inr entries"
  proof -
    from run [OF a] obtain st' where s:
      "handleTranslateWith tr delay st = Some st'" "translatedSRT st' = ?out"
      "toasts st' = toasts st @ [ToastSuccess msgTranslationDone]" "isTranslating st' = False"
      by (elim exE conjE)
    have u: "translatedSRT st' =
                    concat (map (\<lambda>k. (if k = 0 then [] else [0x0A]) @ showNat (k + 1) @
                                      [0x0A] @ startTime (entries ! k) @
                                      [0x20, 0x2D, 0x2D, 0x3E, 0x20] @ endTime (entries ! k) @
                                      [0x0A] @ g (text' (entries ! k)) @ [0x0A])
                                [0..<length entries])"
      using s(2) units by (rule trans)
    have t: "entries = [A, B, C] \<longrightarrow>
                     translatedSRT st' =
                       [0x31, 0x0A] @ startTime A @ [0x20, 0x2D, 0x2D, 0x3E, 0x20] @ endTime A @
                       [0x0A] @ g (text' A) @ [0x0A, 0x0A, 0x32, 0x0A] @ startTime B @
                       [0x20, 0x2D, 0x2D, 0x3E, 0x20] @ endTime B @ [0x0A] @ g (text' B) @
                       [0x0A, 0x0A, 0x33, 0x0A] @ startTime C @
                       [0x20, 0x2D, 0x2D, 0x3E, 0x20] @ endTime C @ [0x0A] @ g (text' C) @
                       [0x0A]"
      using three s(2) by (simp only:)
    show ?thesis
      by (rule exI [where x = st'], intro conjI s u t)
  qed
  show "promiseAll (translateEntries tr delay language entries) =
         Some (Inr (map (\<lambda>e. e\<lparr>text' := g (text' e)\<rparr>) entries))
       \<and> (file' st = Some f \<and> selectedLanguage st = language \<and> language \<noteq> [] \<and>
           fileText f = Inr content \<and> parseSRT content = Inr entries
           \<longrightarrow> (\<exists>st'. handleTranslateWith tr delay st = Some st' \<and>
                  translatedSRT st' =
                    generateSRT (map (\<lambda>e. e\<lparr>text' := g (text' e)\<rparr>) entries) \<and>
                  toasts st' = toasts st @ [ToastSuccess msgTranslationDone] \<and>
                  isTranslating st' = False \<and>
                  translatedSRT st' =
                    concat (map (\<lambda>k. (if k = 0 then [] else [0x0A]) @ showNat (k + 1) @
                                      [0x0A] @ startTime (entries ! k) @
                                      [0x20, 0x2D, 0x2D, 0x3E, 0x20] @ endTime (entries ! k) @
                                      [0x0A] @ g (text' (entries ! k)) @ [0x0A])
                                [0..<length entries]) \<and>
                  (entries = [A, B, C] \<longrightarrow>
                     translatedSRT st' =
                       [0x31, 0x0A] @ startTime A @ [0x20, 0x2D, 0x2D, 0x3E, 0x20] @ endTime A @
                       [0x0A] @ g (text' A) @ [0x0A, 0x0A, 0x32, 0x0A] @ startTime B @
                       [0x20, 0x2D, 0x2D, 0x3E, 0x20] @ endTime B @ [0x0A] @ g (text' B) @
                       [0x0A, 0x0A, 0x33, 0x0A] @ startTime C @
                       [0x20, 0x2D, 0x2D, 0x3E, 0x20] @ endTime C @ [0x0A] @ g (text' C) @
                       [0x0A])))"
    using pa full by (intro conjI impI)
qed

theorem translation_order_preserved_witness:
  "(\<exists>st'. handleTranslateWith translateText (\<lambda>i. 300 - 100 * i)
            \<lparr>selectedLanguage = str ''english'',
             file' = Some \<lparr>fileName = str ''a.srt'',
                           fileText = Inr (str ''1\<newline>00:00:01,000 --> 00:00:02,000\<newline>A\<newline>\<newline>2\<newline>00:00:03,000 --> 00:00:04,000\<newline>B\<newline>\<newline>3\<newline>00:00:05,000 --> 00:00:06,000\<newline>C'')\<rparr>,
             translatedSRT = [], isTranslating = False, originalEntries = [],
             toasts = [], consoleErrors = []\<rparr> = Some st' \<and>
          translatedSRT st' =
            str ''1\<newline>00:00:01,000 --> 00:00:02,000\<newline>Translation: A\<newline>\<newline>2\<newline>00:00:03,000 --> 00:00:04,000\<newline>Translation: B\<newline>\<newline>3\<newline>00:00:05,000 --> 00:00:06,000\<newline>Translation: C\<newline>'')
   \<and> promiseAll
     (translateEntries translateText (\<lambda>i. 300 - 100 * i) (str ''english'')
        [\<lparr>index = Num 1, startTime = str ''00:00:01,000'', endTime = str ''00:00:02,000'',
           text' = str ''A''\<rparr>,
         \<lparr>index = Num 2, startTime = str ''00:00:03,000'', endTime = str ''00:00:04,000'',
           text' = str ''B''\<rparr>,
         \<lparr>index = Num 3, startTime = str ''00:00:05,000'', endTime = str ''00:00:06,000'',
           text' = str ''C''\<rparr>]) =
     Some (Inr
        [\<lparr>index = Num 1, startTime = str ''00:00:01,000'', endTime = str ''00:00:02,000'',
           text' = str ''Translation: A''\<rparr>,
         \<lparr>index = Num 2, startTime = str ''00:00:03,000'', endTime = str ''00:00:04,000'',
           text' = str ''Translation: B''\<rparr>,
         \<lparr>index = Num 3, startTime = str ''00:00:05,000'', endTime = str ''00:00:06,000'',
           text' = str ''Translation: C''\<rparr>])
   \<and> map fst (settleEvents
       (translateEntries translateText (\<lambda>i. 300 - 100 * i) (str ''english'')
        [\<lparr>index = Num 1, startTime = str ''00:00:01,000'', endTime = str ''00:00:02,000'',
           text' = str ''A''\<rparr>,
         \<lparr>index = Num 2, startTime = str ''00:00:03,000'', endTime = str ''00:00:04,000'',
           text' = str ''B''\<rparr>,
         \<lparr>index = Num 3, startTime = str ''00:00:05,000'', endTime = str ''00:00:06,000'',
           text' = str ''C''\<rparr>])) = [2, 1, 0]"
proof -
  let ?a = "\<lparr>index = Num 1, startTime = str ''00:00:01,000'', endTime = str ''00:00:02,000'',
           text' = str ''A''\<rparr>"
  let ?b = "\<lparr>index = Num 2, startTime = str ''00:00:03,000'', endTime = str ''00:00:04,000'',
           text' = str ''B''\<rparr>"
  let ?c = "\<lparr>index = Num 3, startTime = str ''00:00:05,000'', endTime = str ''00:00:06,000'',
           text' = str ''C''\<rparr>"
  let ?g = "\<lambda>t. str ''Translation: '' @ t"
  let ?content = "str ''1\<newline>00:00:01,000 --> 00:00:02,000\<newline>A\<newline>\<newline>2\<newline>00:00:03,000 --> 00:00:04,000\<newline>B\<newline>\<newline>3\<newline>00:00:05,000 --> 00:00:06,000\<newline>C''"
  let ?f = "\<lparr>fileName = str ''a.srt'', fileText = Inr ?content\<rparr>"
  let ?st = "\<lparr>selectedLanguage = str ''english'', file' = Some ?f,
             translatedSRT = [], isTranslating = False, originalEntries = [],
             toasts = [], consoleErrors = []\<rparr>"
  let ?d = "\<lambda>i. 300 - 100 * i"
  let ?lit = "str ''1\<newline>00:00:01,000 --> 00:00:02,000\<newline>Translation: A\<newline>\<newline>2\<newline>00:00:03,000 --> 00:00:04,000\<newline>Translation: B\<newline>\<newline>3\<newline>00:00:05,000 --> 00:00:06,000\<newline>Translation: C\<newline>''"
  have h: "\<forall>e \<in> set [?a, ?b, ?c]. translateText (text' e) (str ''english'') = Inr (?g (text' e))"
    by (simp add: translateText_def str_def)
  note inst = translation_order_preserved
      [of "[?a, ?b, ?c]" translateText "str ''english''" ?g ?d ?st ?f ?content ?a ?b ?c,
        THEN mp, OF h]
  have 1: "file' ?st = Some ?f" by simp
  have 2: "selectedLanguage ?st = str ''english''" by simp
  have 3: "str ''english'' \<noteq> []" by (simp add: str_def)
  have 4: "fileText ?f = Inr ?content" by simp
  have 5: "parseSRT ?content = Inr [?a, ?b, ?c]" by code_simp
  from 1 2 3 4 5 have hyp:
    "file' ?st = Some ?f \<and> selectedLanguage ?st = str ''english'' \<and> str ''english'' \<noteq> [] \<and>
     fileText ?f = Inr ?content \<and> parseSRT ?content = Inr [?a, ?b, ?c]"
    by (intro conjI)
  note run = inst [THEN conjunct2, THEN mp, OF hyp]
  from run obtain st' where s:
    "handleTranslateWith translateText ?d ?st = Some st'"
    "translatedSRT st' = generateSRT (map (\<lambda>e. e\<lparr>text' := ?g (text' e)\<rparr>) [?a, ?b, ?c])"
    by (elim exE conjE)
  have lit: "generateSRT (map (\<lambda>e. e\<lparr>text' := ?g (text' e)\<rparr>) [?a, ?b, ?c]) = ?lit"
    by code_simp
  from s(2) lit have t: "translatedSRT st' = ?lit" by (rule trans)
  from s(1) t have "handleTranslateWith translateText ?d ?st = Some st' \<and> translatedSRT st' = ?lit"
    by (rule conjI)
  then have A: "\<exists>st'. handleTranslateWith translateText ?d ?st = Some st' \<and>
      translatedSRT st' = ?lit"
    by (rule exI [where x = st'])
  have "promiseAll (translateEntries translateText ?d (str ''english'') [?a, ?b, ?c]) =
        Some (Inr (map (\<lambda>e. e\<lparr>text' := ?g (text' e)\<rparr>) [?a, ?b, ?c]))"
    by (rule inst [THEN conjunct1])
  then have B: "promiseAll (translateEntries translateText ?d (str ''english'') [?a, ?b, ?c]) =
     Some (Inr
        [\<lparr>index = Num 1, startTime = str ''00:00:01,000'', endTime = str ''00:00:02,000'',
           text' = str ''Translation: A''\<rparr>,
         \<lparr>index = Num 2, startTime = str ''00:00:03,000'', endTime = str ''00:00:04,000'',
           text' = str ''Translation: B''\<rparr>,
         \<lparr>index = Num 3, startTime = str ''00:00:05,000'', endTime = str ''00:00:06,000'',
           text' = str ''Translation: C''\<rparr>])"
    by (simp add: str_def)
  have C: "map fst (settleEvents
       (translateEntries translateText ?d (str ''english'') [?a, ?b, ?c])) = [2, 1, 0]"
    by code_simp
  show ?thesis by (rule conjI [OF A conjI [OF B C]])
qed

end
